theory Spec2Isabelle
  imports Main
begin

section \<open>Commit hooks for SQLAlchemy sessions: the data model\<close>

text \<open>
  The development follows \<^verbatim>\<open>sqlalchemy_commithooks/commit_mixin.py\<close>. The code names
  the three lifecycle points and the three mutation kinds by strings that only ever take
  three values each (\<^verbatim>\<open>'before'\<close>, \<^verbatim>\<open>'after'\<close>, \<^verbatim>\<open>'failed'\<close> for the variable
  \<^verbatim>\<open>time\<close>; \<^verbatim>\<open>'insert'\<close>, \<^verbatim>\<open>'update'\<close>, \<^verbatim>\<open>'delete'\<close> for \<^verbatim>\<open>action\<close> and
  \<^verbatim>\<open>type_\<close>), so both are enumerations here. Entities are compared by identity, so an
  entity is the number of its object.
\<close>

datatype time = Before | After | Failed

datatype action = Insert | Update | Delete

type_synonym obj = nat

text \<open>
  The exceptions that can leave the code: the three built-in ones that the interpreter
  raises by itself, \<^verbatim>\<open>NotImplementedError\<close> (which the default hooks name but, as shown
  below, never raise), and whatever an overriding hook raises (numbered).
\<close>

datatype exn = TypeError | AttributeError | RuntimeError | NotImplementedError | HookFailure nat

text \<open>
  A bucket is a \<^verbatim>\<open>defaultdict(set)\<close>: an insertion-ordered dictionary from entities to
  sets of actions. It is an association list whose order is the insertion order.
  \<^verbatim>\<open>bucket[obj].add(action)\<close> adds to the set of an existing key, where the key stands,
  and appends a new key with the singleton set otherwise.
\<close>

type_synonym bucket = "(obj \<times> action set) list"

fun bucket_add :: "bucket \<Rightarrow> obj \<Rightarrow> action \<Rightarrow> bucket" where
  "bucket_add [] obj a = [(obj, {a})]"
| "bucket_add ((k, S) # b) obj a =
     (if k = obj then (k, insert a S) # b else (k, S) # bucket_add b obj a)"

text \<open>\<^verbatim>\<open>objects[obj]\<close> for reading: the set stored under the key (empty for a new key).\<close>

definition getitem :: "bucket \<Rightarrow> obj \<Rightarrow> action set" where
  "getitem b obj = (case map_of b obj of None \<Rightarrow> {} | Some S \<Rightarrow> S)"

text \<open>The class \<^verbatim>\<open>_CommitObjects\<close>.\<close>

record CommitObjects =
  lock :: bool
  before :: bucket
  after :: bucket
  failed :: bucket

definition CommitObjects_init :: CommitObjects where
  "CommitObjects_init = \<lparr>lock = False, before = [], after = [], failed = []\<rparr>"

text \<open>\<^verbatim>\<open>getattr(self._commit_objects, time)\<close>, and the effect of \<^verbatim>\<open>.clear()\<close> on it.\<close>

fun get_bucket :: "time \<Rightarrow> CommitObjects \<Rightarrow> bucket" where
  "get_bucket Before c = before c"
| "get_bucket After c = after c"
| "get_bucket Failed c = failed c"

fun clear_bucket :: "time \<Rightarrow> CommitObjects \<Rightarrow> CommitObjects" where
  "clear_bucket Before c = c\<lparr>before := []\<rparr>"
| "clear_bucket After c = c\<lparr>after := []\<rparr>"
| "clear_bucket Failed c = c\<lparr>failed := []\<rparr>"

text \<open>
  A transaction object of the engine is known by its identity. The session's attribute
  \<^verbatim>\<open>transaction\<close> is \<^verbatim>\<open>None\<close> or such an object.
\<close>

datatype txn = Txn nat

text \<open>
  The session, as far as \<^verbatim>\<open>SessionMixin\<close> reads and writes it. Three fields stand for
  the engine and the observer rather than for attributes of the class:
  \<^item> \<open>txn_alloc\<close>: the identity that the next transaction object created will get;
  \<^item> \<open>pending\<close>: the calls of mutation listeners that the next \<^verbatim>\<open>flush()\<close> will make,
    each one a call of the closure \<^verbatim>\<open>_build_add_func(time, action)\<close> on an entity of
    this session;
  \<^item> \<open>calls\<close>: the log of the hook methods invoked so far, in order, as
    \<^verbatim>\<open>Mock.method_calls\<close> records it in the tests.
\<close>

record session =
  commit_objects :: CommitObjects
  after_failed_commit_active :: bool
  transaction :: "txn option"
  txn_alloc :: nat
  pending :: "(time \<times> obj \<times> action) list"
  calls :: "(obj \<times> time \<times> action) list"

text \<open>\<^verbatim>\<open>SessionMixin.__init__\<close>; the class attribute \<^verbatim>\<open>transaction\<close> is \<^verbatim>\<open>None\<close>.\<close>

definition session_init :: session where
  "session_init =
     \<lparr>commit_objects = CommitObjects_init, after_failed_commit_active = False,
      transaction = None, txn_alloc = 0, pending = [], calls = []\<rparr>"

text \<open>
  A result of running code on a session: the session as the code left it, and the
  exception if one left the code.
\<close>

type_synonym result = "(exn \<times> session) + session"

fun final :: "result \<Rightarrow> session" where
  "final (Inl (e, s)) = s"
| "final (Inr s) = s"

section \<open>Recording mutations\<close>

text \<open>
  \<^verbatim>\<open>_add_before_commit_object\<close>, \<^verbatim>\<open>_add_after_commit_object\<close> and
  \<^verbatim>\<open>_add_failed_commit_object\<close>: each writes only when the lock is not set.
\<close>

definition add_before_commit_object :: "obj \<Rightarrow> action \<Rightarrow> session \<Rightarrow> session" where
  "add_before_commit_object obj a s =
     (if \<not> lock (commit_objects s)
      then s\<lparr>commit_objects :=
              (commit_objects s)\<lparr>before := bucket_add (before (commit_objects s)) obj a\<rparr>\<rparr>
      else s)"

definition add_after_commit_object :: "obj \<Rightarrow> action \<Rightarrow> session \<Rightarrow> session" where
  "add_after_commit_object obj a s =
     (if \<not> lock (commit_objects s)
      then s\<lparr>commit_objects :=
              (commit_objects s)\<lparr>after := bucket_add (after (commit_objects s)) obj a\<rparr>\<rparr>
      else s)"

definition add_failed_commit_object :: "obj \<Rightarrow> action \<Rightarrow> session \<Rightarrow> session" where
  "add_failed_commit_object obj a s =
     (if \<not> lock (commit_objects s)
      then s\<lparr>commit_objects :=
              (commit_objects s)\<lparr>failed := bucket_add (failed (commit_objects s)) obj a\<rparr>\<rparr>
      else s)"

text \<open>
  \<^verbatim>\<open>getattr(session, f'_add_{time}_commit_object')(object, action)\<close>: the method that
  the name built from \<^verbatim>\<open>time\<close> selects.
\<close>

fun add_commit_object :: "time \<Rightarrow> obj \<Rightarrow> action \<Rightarrow> session \<Rightarrow> session" where
  "add_commit_object Before = add_before_commit_object"
| "add_commit_object After = add_after_commit_object"
| "add_commit_object Failed = add_failed_commit_object"

text \<open>
  The closure \<^verbatim>\<open>add_object\<close> that \<^verbatim>\<open>_build_add_func(time, action)\<close> returns is the
  single expression \<^verbatim>\<open>getattr(object_session(object), method)(object, action)\<close>, and
  nothing in it catches an exception. \<^verbatim>\<open>object_session\<close> answers \<^verbatim>\<open>None\<close> for an
  entity that belongs to no session, and \<^verbatim>\<open>getattr(None, method)\<close> raises
  \<^verbatim>\<open>AttributeError\<close>. A session that is found is one of three kinds of object:
  \<^item> \<open>Plain\<close>: a session whose class does not have \<^verbatim>\<open>SessionMixin\<close> among its bases
    (such as \<^verbatim>\<open>sqlalchemy.orm.Session\<close> itself); it has no method
    \<^verbatim>\<open>_add_{time}_commit_object\<close>, so \<^verbatim>\<open>getattr\<close> raises \<^verbatim>\<open>AttributeError\<close>;
  \<^item> \<open>Uninitialised\<close>: a session whose class lists \<^verbatim>\<open>SessionMixin\<close> after the
    engine's session class, the case the docstring of \<^verbatim>\<open>SessionMixin\<close> warns of; the
    method is found, but \<^verbatim>\<open>SessionMixin.__init__\<close> never ran, there is no attribute
    \<^verbatim>\<open>_commit_objects\<close>, and the first line of the method raises \<^verbatim>\<open>AttributeError\<close>
    when it reads \<^verbatim>\<open>self._commit_objects.lock\<close>;
  \<^item> \<open>Tracked\<close>: a session that \<^verbatim>\<open>SessionMixin.__init__\<close> has initialised.
  The sessions of the process are a store indexed by session identity. In each case
  that raises, nothing has been written when the exception leaves.
\<close>

type_synonym sid = nat

datatype session_object = Plain | Uninitialised | Tracked session

record world =
  object_session :: "obj \<Rightarrow> sid option"
  sessions :: "sid \<Rightarrow> session_object"

definition add_object :: "time \<Rightarrow> action \<Rightarrow> obj \<Rightarrow> world \<Rightarrow> (exn \<times> world) + world" where
  "add_object t a object w =
     (case object_session w object of
        None \<Rightarrow> Inl (AttributeError, w)
      | Some i \<Rightarrow>
          (case sessions w i of
             Plain \<Rightarrow> Inl (AttributeError, w)
           | Uninitialised \<Rightarrow> Inl (AttributeError, w)
           | Tracked s \<Rightarrow>
               Inr (w\<lparr>sessions := (sessions w)(i := Tracked (add_commit_object t object a s))\<rparr>)))"

fun final_world :: "(exn \<times> world) + world \<Rightarrow> world" where
  "final_world (Inl (e, w)) = w"
| "final_world (Inr w) = w"

section \<open>Hook methods\<close>

text \<open>
  The default hook bodies are \<^verbatim>\<open>raise NotImplemented(self.__err)\<close>. To see what that
  statement does, the values involved and the two steps of the interpreter are spelled
  out: a call evaluates its arguments and then applies the callee, and only classes,
  among the values here, can be called; \<^verbatim>\<open>raise\<close> takes an exception instance (or an
  exception class, which it instantiates) and fails with \<^verbatim>\<open>TypeError\<close> on anything else.
  \<^verbatim>\<open>NotImplemented\<close> is the singleton constant of the rich comparison protocol, not the
  exception class \<^verbatim>\<open>NotImplementedError\<close>.
\<close>

datatype pyval = NotImplemented | NotImplementedError_class | Str string | Instance exn

fun py_call :: "pyval \<Rightarrow> pyval list \<Rightarrow> exn + pyval" where
  "py_call NotImplementedError_class args = Inr (Instance NotImplementedError)"
| "py_call NotImplemented args = Inl TypeError"
| "py_call (Str v) args = Inl TypeError"
| "py_call (Instance e) args = Inl TypeError"

fun py_raise :: "pyval \<Rightarrow> exn" where
  "py_raise (Instance e) = e"
| "py_raise NotImplementedError_class = NotImplementedError"
| "py_raise NotImplemented = TypeError"
| "py_raise (Str v) = TypeError"

text \<open>
  Inside the class body a name with two leading underscores is mangled with the class
  name, both where \<^verbatim>\<open>__err\<close> is assigned and where \<^verbatim>\<open>self.__err\<close> is read, so the
  attribute is found.
\<close>

definition mangle :: "string \<Rightarrow> string \<Rightarrow> string" where
  "mangle cls name =
     (if take 2 name = ''__'' \<and> \<not> (2 \<le> length name \<and> drop (length name - 2) name = ''__'')
      then ''_'' @ cls @ name else name)"

definition CommitMixin_dict :: "(string \<times> pyval) list" where
  "CommitMixin_dict = [(mangle ''CommitMixin'' ''__err'', Str ''Override to add hooks'')]"

definition py_getattr :: "(string \<times> pyval) list \<Rightarrow> string \<Rightarrow> exn + pyval" where
  "py_getattr d name = (case map_of d name of None \<Rightarrow> Inl AttributeError | Some v \<Rightarrow> Inr v)"

text \<open>The exception that leaves a default hook body.\<close>

definition default_hook :: exn where
  "default_hook =
     (case py_getattr CommitMixin_dict (mangle ''CommitMixin'' ''__err'') of
        Inl e \<Rightarrow> e
      | Inr msg \<Rightarrow> (case py_call NotImplemented [msg] of Inl e \<Rightarrow> e | Inr v \<Rightarrow> py_raise v))"

text \<open>
  What a hook method of an entity does. \<open>Default\<close> is the body inherited from
  \<^verbatim>\<open>CommitMixin\<close>. An overriding body is application code; for the session it matters how
  it ends (it returns, or raises) and which mutations it causes meanwhile, each of which
  reaches the session as a call of \<^verbatim>\<open>_add_{time}_commit_object(obj, action)\<close>.
\<close>

datatype hook = Default | Override "(time \<times> obj \<times> action) list" "exn option"

fun writes :: "hook \<Rightarrow> (time \<times> obj \<times> action) list" where
  "writes Default = []"
| "writes (Override ws r) = ws"

fun outcome :: "hook \<Rightarrow> exn option" where
  "outcome Default = Some default_hook"
| "outcome (Override ws r) = r"

text \<open>The methods of the entities: \<^verbatim>\<open>getattr(obj, f'{time}_commit_from_{type_}')\<close>.\<close>

type_synonym methods = "obj \<Rightarrow> time \<Rightarrow> action \<Rightarrow> hook"

fun record_all :: "(time \<times> obj \<times> action) list \<Rightarrow> session \<Rightarrow> session" where
  "record_all [] s = s"
| "record_all ((t, obj, a) # ws) s = record_all ws (add_commit_object t obj a s)"

definition logged :: "obj \<Rightarrow> time \<Rightarrow> action \<Rightarrow> session \<Rightarrow> session" where
  "logged obj t a s = s\<lparr>calls := calls s @ [(obj, t, a)]\<rparr>"

definition call_hook :: "methods \<Rightarrow> obj \<Rightarrow> time \<Rightarrow> action \<Rightarrow> session \<Rightarrow> result" where
  "call_hook M obj t a s =
     (case M obj t a of
        Default \<Rightarrow> Inl (default_hook, logged obj t a s)
      | Override ws r \<Rightarrow>
          (let s' = record_all ws (logged obj t a s)
           in case r of None \<Rightarrow> Inr s' | Some e \<Rightarrow> Inl (e, s')))"

section \<open>Dispatch\<close>

text \<open>
  \<^verbatim>\<open>_do_commits\<close>. The inner loop \<^verbatim>\<open>for obj in objects\<close> iterates the live dictionary:
  before every step, also the one that finds the end, the iterator compares the size of
  the dictionary with the size it had when the iteration began and raises
  \<^verbatim>\<open>RuntimeError\<close> if they differ. The only writes that reach a bucket are those of
  \<open>bucket_add\<close>, which never removes or reorders a key, so as long as the size is the
  same the keys are those of the beginning, in the same order. \<open>n\<close> is that size and the
  list the keys not yet visited.
\<close>

fun for_objects :: "methods \<Rightarrow> time \<Rightarrow> action \<Rightarrow> nat \<Rightarrow> obj list \<Rightarrow> session \<Rightarrow> result" where
  "for_objects M t a n [] s =
     (if length (get_bucket t (commit_objects s)) \<noteq> n then Inl (RuntimeError, s) else Inr s)"
| "for_objects M t a n (obj # rest) s =
     (if length (get_bucket t (commit_objects s)) \<noteq> n then Inl (RuntimeError, s)
      else if a \<in> getitem (get_bucket t (commit_objects s)) obj
      then (case call_hook M obj t a s of
              Inl x \<Rightarrow> Inl x
            | Inr s' \<Rightarrow> for_objects M t a n rest s')
      else for_objects M t a n rest s)"

fun for_types :: "methods \<Rightarrow> time \<Rightarrow> action list \<Rightarrow> session \<Rightarrow> result" where
  "for_types M t [] s = Inr s"
| "for_types M t (a # as) s =
     (let objects = get_bucket t (commit_objects s)
      in case for_objects M t a (length objects) (map fst objects) s of
           Inl x \<Rightarrow> Inl x
         | Inr s' \<Rightarrow> for_types M t as s')"

definition do_commits :: "methods \<Rightarrow> time \<Rightarrow> session \<Rightarrow> result" where
  "do_commits M t s =
     (case for_types M t [Insert, Update, Delete] s of
        Inl x \<Rightarrow> Inl x
      | Inr s' \<Rightarrow> Inr (s'\<lparr>commit_objects := clear_bucket t (commit_objects s')\<rparr>))"

text \<open>
  \<^verbatim>\<open>_tmp_transaction\<close> is a generator under \<^verbatim>\<open>@contextmanager\<close> with no
  \<^verbatim>\<open>try\<close>/\<^verbatim>\<open>finally\<close> around its \<^verbatim>\<open>yield\<close>: when the body of the \<^verbatim>\<open>with\<close> statement
  raises, the exception is thrown into the generator at the \<^verbatim>\<open>yield\<close> and leaves it
  there, so the assignment after the \<^verbatim>\<open>yield\<close> runs only when the body returns.
  \<^verbatim>\<open>SessionTransaction(session)\<close> makes a new transaction object.
\<close>

definition SessionTransaction :: "session \<Rightarrow> txn \<times> session" where
  "SessionTransaction s = (Txn (txn_alloc s), s\<lparr>txn_alloc := Suc (txn_alloc s)\<rparr>)"

definition tmp_transaction :: "(session \<Rightarrow> result) \<Rightarrow> session \<Rightarrow> result" where
  "tmp_transaction body s =
     (let current_transaction = transaction s;
          (new, s1) = SessionTransaction s;
          s2 = s1\<lparr>transaction := Some new\<rparr>
      in case body s2 of
           Inl x \<Rightarrow> Inl x
         | Inr s3 \<Rightarrow> Inr (s3\<lparr>transaction := current_transaction\<rparr>))"

definition do_before_commits :: "methods \<Rightarrow> session \<Rightarrow> result" where
  "do_before_commits M s =
     do_commits M Before (s\<lparr>commit_objects := (commit_objects s)\<lparr>lock := True\<rparr>\<rparr>)"

definition do_after_commits :: "methods \<Rightarrow> session \<Rightarrow> result" where
  "do_after_commits M s =
     (case tmp_transaction (do_commits M After) s of
        Inl x \<Rightarrow> Inl x
      | Inr s' \<Rightarrow> Inr (s'\<lparr>commit_objects := (commit_objects s')\<lparr>failed := [], lock := False\<rparr>\<rparr>))"

definition do_failed_commits :: "methods \<Rightarrow> session \<Rightarrow> result" where
  "do_failed_commits M s =
     (case tmp_transaction (do_commits M Failed) s of
        Inl x \<Rightarrow> Inl x
      | Inr s' \<Rightarrow> Inr (s'\<lparr>commit_objects := (commit_objects s')\<lparr>after := [], lock := False\<rparr>\<rparr>))"

section \<open>The listeners of the session's lifecycle\<close>

text \<open>
  \<^verbatim>\<open>session.flush()\<close> belongs to the engine. Here it makes the pending listener calls,
  in order, on this session (the entities a session flushes are its own, so
  \<^verbatim>\<open>object_session\<close> answers this session for each). A flush that fails inside the
  engine is not part of the model.
\<close>

definition flush :: "session \<Rightarrow> session" where
  "flush s = record_all (pending s) (s\<lparr>pending := []\<rparr>)"

definition before_commit :: "methods \<Rightarrow> session \<Rightarrow> result" where
  "before_commit M s =
     (let s1 = flush s;
          s2 = s1\<lparr>after_failed_commit_active := True\<rparr>
      in do_before_commits M s2)"

definition after_commit :: "methods \<Rightarrow> session \<Rightarrow> result" where
  "after_commit M s = do_after_commits M (s\<lparr>after_failed_commit_active := False\<rparr>)"

definition after_failed_commit :: "methods \<Rightarrow> session \<Rightarrow> result" where
  "after_failed_commit M s =
     (if after_failed_commit_active s
      then (case do_failed_commits M s of
              Inl x \<Rightarrow> Inl x
            | Inr s' \<Rightarrow> Inr (s'\<lparr>after_failed_commit_active := False\<rparr>))
      else Inr (s\<lparr>after_failed_commit_active := False\<rparr>))"

section \<open>Registering hooks\<close>

text \<open>
  A class below \<^verbatim>\<open>CommitMixin\<close> is known by its name, the hook methods its own body
  defines, and the class that follows it in its method resolution order among those
  that can define hooks (classes that define none do not matter for the lookup of a hook
  name). A hook name \<^verbatim>\<open>{time}_commit_from_{action}\<close> is the pair that
  \<^verbatim>\<open>_register_hooks\<close> reads back from it with \<^verbatim>\<open>split('_')\<close>, fields 0 and 3.
\<close>

datatype pyclass = CommitMixin | Subclass nat "(time \<times> action) list" pyclass

text \<open>\<^verbatim>\<open>_lookup_hooks\<close>: the nine names in \<^verbatim>\<open>CommitMixin.__dict__\<close>.\<close>

definition lookup_hooks :: "(time \<times> action) list" where
  "lookup_hooks =
     [(Before, Insert), (Before, Update), (Before, Delete),
      (After, Insert), (After, Update), (After, Delete),
      (Failed, Insert), (Failed, Update), (Failed, Delete)]"

text \<open>
  \<^verbatim>\<open>getattr(cls, hook)\<close> finds the function of the first class in the resolution order
  whose body defines the name; the function is known by that class.
\<close>

fun getattr_hook :: "pyclass \<Rightarrow> time \<times> action \<Rightarrow> pyclass" where
  "getattr_hook CommitMixin h = CommitMixin"
| "getattr_hook (Subclass n own base) h =
     (if h \<in> set own then Subclass n own base else getattr_hook base h)"

definition overridden_hooks :: "pyclass \<Rightarrow> (time \<times> action) list" where
  "overridden_hooks cls =
     filter (\<lambda>hook. getattr_hook CommitMixin hook \<noteq> getattr_hook cls hook) lookup_hooks"

text \<open>
  \<^verbatim>\<open>event.listen(cls, f'after_{action}', _build_add_func(time, action))\<close> appends a
  listener to the engine's registry. The listener is known by the class it is installed
  on and by the \<^verbatim>\<open>time\<close> and \<^verbatim>\<open>action\<close> of its closure; the event it listens to is
  \<^verbatim>\<open>after_{action}\<close> for the same \<^verbatim>\<open>action\<close>.
\<close>

type_synonym listener = "pyclass \<times> time \<times> action"

fun register_hooks :: "pyclass \<Rightarrow> (time \<times> action) list \<Rightarrow> listener list \<Rightarrow> listener list" where
  "register_hooks cls [] reg = reg"
| "register_hooks cls ((t, a) # methods) reg = register_hooks cls methods (reg @ [(cls, t, a)])"

definition init_subclass :: "pyclass \<Rightarrow> listener list \<Rightarrow> listener list" where
  "init_subclass cls reg = register_hooks cls (overridden_hooks cls) reg"

text \<open>
  Creating a class creates its bases first; \<^verbatim>\<open>__init_subclass__\<close> runs once for every
  class below \<^verbatim>\<open>CommitMixin\<close>.
\<close>

fun declare_class :: "pyclass \<Rightarrow> listener list \<Rightarrow> listener list" where
  "declare_class CommitMixin reg = reg"
| "declare_class (Subclass n own base) reg =
     init_subclass (Subclass n own base) (declare_class base reg)"

text \<open>
  The engine's side of a mutation event \<^verbatim>\<open>after_{action}\<close> on an entity of class
  \<open>cls\<close>: every listener for that event that applies to the class is called, in the order
  of registration. Whether a listener installed on a base class applies to a subclass
  is the engine's policy (\<open>propagate\<close>); both answers are covered. Each call is the closure
  of \<^verbatim>\<open>_build_add_func\<close> on the entity, whose session is \<open>s\<close>.
\<close>

fun mro :: "pyclass \<Rightarrow> pyclass list" where
  "mro CommitMixin = [CommitMixin]"
| "mro (Subclass n own base) = Subclass n own base # mro base"

definition applies :: "bool \<Rightarrow> pyclass \<Rightarrow> pyclass \<Rightarrow> bool" where
  "applies propagate target cls = (target = cls \<or> (propagate \<and> target \<in> set (mro cls)))"

definition listener_calls ::
  "listener list \<Rightarrow> bool \<Rightarrow> pyclass \<Rightarrow> action \<Rightarrow> obj \<Rightarrow> (time \<times> obj \<times> action) list" where
  "listener_calls reg propagate cls action obj =
     map (\<lambda>(target, t, a). (t, obj, a))
       (filter (\<lambda>(target, t, a). a = action \<and> applies propagate target cls) reg)"

definition emit :: "listener list \<Rightarrow> bool \<Rightarrow> pyclass \<Rightarrow> action \<Rightarrow> obj \<Rightarrow> session \<Rightarrow> session" where
  "emit reg propagate cls action obj s = record_all (listener_calls reg propagate cls action obj) s"

section \<open>The dispatch order, as the specification words it\<close>

text \<open>
  Kinds in the fixed priority insert, update, delete; for each kind the entities of the
  bucket in insertion order whose kind-set contains the kind.
\<close>

definition kind_pass :: "bucket \<Rightarrow> action \<Rightarrow> (obj \<times> action) list" where
  "kind_pass b a = map (\<lambda>k. (k, a)) (filter (\<lambda>k. a \<in> getitem b k) (map fst b))"

definition dispatch_order :: "bucket \<Rightarrow> (obj \<times> action) list" where
  "dispatch_order b = concat (map (kind_pass b) [Insert, Update, Delete])"

text \<open>
  Walking a list of hooks in order, stopping at the first that raises: the hooks that
  get invoked, and the exception that ends the walk if one does.
\<close>

fun fired :: "methods \<Rightarrow> time \<Rightarrow> (obj \<times> action) list \<Rightarrow> (obj \<times> action) list" where
  "fired M t [] = []"
| "fired M t ((obj, a) # xs) =
     (obj, a) # (case outcome (M obj t a) of None \<Rightarrow> fired M t xs | Some e \<Rightarrow> [])"

fun first_raise :: "methods \<Rightarrow> time \<Rightarrow> (obj \<times> action) list \<Rightarrow> exn option" where
  "first_raise M t [] = None"
| "first_raise M t ((obj, a) # xs) =
     (case outcome (M obj t a) of None \<Rightarrow> first_raise M t xs | Some e \<Rightarrow> Some e)"

definition tagged :: "time \<Rightarrow> (obj \<times> action) list \<Rightarrow> (obj \<times> time \<times> action) list" where
  "tagged t xs = map (\<lambda>(obj, a). (obj, t, a)) xs"

definition walk :: "methods \<Rightarrow> time \<Rightarrow> (obj \<times> action) list \<Rightarrow> session \<Rightarrow> result" where
  "walk M t xs s =
     (let s' = s\<lparr>calls := calls s @ tagged t (fired M t xs)\<rparr>
      in case first_raise M t xs of None \<Rightarrow> Inr s' | Some e \<Rightarrow> Inl (e, s'))"

text \<open>
  During a dispatch the writes of the hooks leave the ChangeRecord alone when the lock is
  set, or when no hook attempts a write. \<open>silenced\<close> are the same methods with their
  writes removed.
\<close>

definition discarding :: "methods \<Rightarrow> session \<Rightarrow> bool" where
  "discarding M s = (lock (commit_objects s) \<or> (\<forall>obj t a. writes (M obj t a) = []))"

definition silenced :: "methods \<Rightarrow> methods" where
  "silenced M obj t a = (case M obj t a of Default \<Rightarrow> Default | Override ws r \<Rightarrow> Override [] r)"

text \<open>Setting the lock, as \<^verbatim>\<open>_do_before_commits\<close> does before it dispatches.\<close>

definition locked :: "session \<Rightarrow> session" where
  "locked s = s\<lparr>commit_objects := (commit_objects s)\<lparr>lock := True\<rparr>\<rparr>"

section \<open>Example entities and sessions\<close>

text \<open>
  Methods for the examples: hooks that return at once; hooks that return after causing
  three mutations; hooks of which those of entity 2 raise.
\<close>

definition quiet_methods :: methods where
  "quiet_methods obj t a = Override [] None"

definition writing_methods :: methods where
  "writing_methods obj t a =
     Override [(Before, 5, Update), (After, obj, Delete), (Failed, 7, Insert)] None"

definition raising_methods :: methods where
  "raising_methods obj t a =
     (if obj = 2 then Override [] (Some (HookFailure 0)) else Override [] None)"

text \<open>A session in the middle of a commit, its lock set, with entities in every bucket.\<close>

definition two_entities :: session where
  "two_entities = session_init\<lparr>commit_objects :=
      \<lparr>lock = True, before = [(1, {Delete}), (2, {Insert})],
       after = [(1, {Insert}), (2, {Insert}), (3, {Insert})], failed = [(1, {Insert})]\<rparr>\<rparr>"

text \<open>
  A new session in which entity 1, whose class overrides the three insert hooks, was
  added: the next flush calls its three listeners. Then the session as
  \<^verbatim>\<open>before_commit\<close> leaves it, and as \<^verbatim>\<open>after_commit\<close> leaves it after that.
\<close>

definition one_insert :: session where
  "one_insert = session_init\<lparr>pending := [(Before, 1, Insert), (After, 1, Insert), (Failed, 1, Insert)]\<rparr>"

definition one_insert_before :: session where
  "one_insert_before =
     \<lparr>commit_objects = \<lparr>lock = True, before = [], after = [(1, {Insert})], failed = [(1, {Insert})]\<rparr>,
      after_failed_commit_active = True, transaction = None, txn_alloc = 0, pending = [],
      calls = [(1, Before, Insert)]\<rparr>"

definition one_insert_after :: session where
  "one_insert_after =
     \<lparr>commit_objects = CommitObjects_init,
      after_failed_commit_active = False, transaction = None, txn_alloc = 1, pending = [],
      calls = [(1, Before, Insert), (1, After, Insert)]\<rparr>"

text \<open>
  Methods whose after hooks raise, and the session they leave behind when the commit of
  \<open>one_insert\<close> has succeeded and \<^verbatim>\<open>after_commit\<close> has raised.
\<close>

definition after_raising_methods :: methods where
  "after_raising_methods obj t a =
     (if t = After then Override [] (Some (HookFailure 1)) else Override [] None)"

definition one_insert_stuck :: session where
  "one_insert_stuck =
     \<lparr>commit_objects = \<lparr>lock = True, before = [], after = [(1, {Insert})], failed = [(1, {Insert})]\<rparr>,
      after_failed_commit_active = False, transaction = Some (Txn 0), txn_alloc = 1, pending = [],
      calls = [(1, Before, Insert), (1, After, Insert)]\<rparr>"

text \<open>A session inside the commit of the engine's transaction number 0.\<close>

definition in_commit :: session where
  "in_commit = two_entities\<lparr>transaction := Some (Txn 0), txn_alloc := 1\<rparr>"

text \<open>Entities whose class overrides no hook.\<close>

definition default_methods :: methods where
  "default_methods obj t a = Default"

text \<open>
  A process with two sessions: session 0 is a new session of a class with
  \<^verbatim>\<open>SessionMixin\<close> first, session 1 is a plain session of the engine. Entity 1 belongs
  to session 0, entity 3 to session 1, and no other entity belongs to a session.
\<close>

definition small_world :: world where
  "small_world =
     \<lparr>object_session = (\<lambda>obj. if obj = 1 then Some 0 else if obj = 3 then Some 1 else None),
      sessions = (\<lambda>i. if i = 0 then Tracked session_init else Plain)\<rparr>"

text \<open>
  The classes \<^verbatim>\<open>Direct\<close> and \<^verbatim>\<open>Skipped\<close> of the tests: the first overrides
  \<^verbatim>\<open>before_commit_from_update\<close>, the second is a subclass of it that defines no hook.
\<close>

definition direct_class :: pyclass where
  "direct_class = Subclass 1 [(Before, Update)] CommitMixin"

definition skipped_class :: pyclass where
  "skipped_class = Subclass 2 [] direct_class"

section \<open>Dispatch while the hooks cannot write\<close>

lemma add_commit_object_locked:
  "lock (commit_objects s) \<Longrightarrow> add_commit_object t obj a s = s"
  by (cases t) (simp_all add: add_before_commit_object_def add_after_commit_object_def
      add_failed_commit_object_def)

lemma record_all_locked: "lock (commit_objects s) \<Longrightarrow> record_all ws s = s"
  by (induction ws s rule: record_all.induct) (simp_all add: add_commit_object_locked)

lemma commit_objects_logged [simp]: "commit_objects (logged obj t a s) = commit_objects s"
  by (simp add: logged_def)

lemma discarding_logged [simp]: "discarding M (logged obj t a s) = discarding M s"
  by (simp add: discarding_def)

lemma call_hook_discarding:
  assumes "discarding M s"
  shows "call_hook M obj t a s =
    (case outcome (M obj t a) of None \<Rightarrow> Inr (logged obj t a s) | Some e \<Rightarrow> Inl (e, logged obj t a s))"
proof (cases "M obj t a")
  case Default
  then show ?thesis by (simp add: call_hook_def)
next
  case (Override ws r)
  have "record_all ws (logged obj t a s) = logged obj t a s"
  proof (cases "lock (commit_objects s)")
    case True
    then show ?thesis by (simp add: record_all_locked)
  next
    case False
    with assms have "writes (M obj t a) = []" by (simp add: discarding_def)
    with Override show ?thesis by simp
  qed
  with Override show ?thesis by (simp add: call_hook_def split: option.splits)
qed

lemma walk_Nil [simp]: "walk M t [] s = Inr s"
  by (simp add: walk_def tagged_def)

lemma walk_Cons:
  "walk M t ((obj, a) # xs) s =
     (case outcome (M obj t a) of None \<Rightarrow> walk M t xs (logged obj t a s)
      | Some e \<Rightarrow> Inl (e, logged obj t a s))"
  by (simp add: walk_def tagged_def logged_def split: option.splits)

lemma walk_append:
  "walk M t (xs @ ys) s = (case walk M t xs s of Inl x \<Rightarrow> Inl x | Inr s' \<Rightarrow> walk M t ys s')"
proof (induction xs arbitrary: s)
  case Nil
  then show ?case by simp
next
  case (Cons x xs)
  obtain obj a where x: "x = (obj, a)" by (cases x)
  show ?case using Cons.IH by (simp add: x walk_Cons split: option.splits)
qed

lemma commit_objects_walk [simp]: "commit_objects (final (walk M t xs s)) = commit_objects s"
  by (simp add: walk_def Let_def split: option.splits)

lemma walk_Inr_commit_objects: "walk M t xs s = Inr s' \<Longrightarrow> commit_objects s' = commit_objects s"
  using commit_objects_walk [of M t xs s] by simp

lemma walk_Inr_discarding: "walk M t xs s = Inr s' \<Longrightarrow> discarding M s' = discarding M s"
  by (simp add: discarding_def walk_Inr_commit_objects)

lemma for_objects_walk:
  assumes "discarding M s" and "length (get_bucket t (commit_objects s)) = n"
  shows "for_objects M t a n ks s =
    walk M t (map (\<lambda>k. (k, a)) (filter (\<lambda>k. a \<in> getitem (get_bucket t (commit_objects s)) k) ks)) s"
  using assms
proof (induction ks arbitrary: s)
  case Nil
  then show ?case by simp
next
  case (Cons k ks)
  show ?case
  proof (cases "a \<in> getitem (get_bucket t (commit_objects s)) k")
    case False
    with Cons show ?thesis by simp
  next
    case True
    have IH: "for_objects M t a n ks (logged k t a s) =
      walk M t (map (\<lambda>k. (k, a)) (filter (\<lambda>k. a \<in> getitem (get_bucket t (commit_objects s)) k) ks)) (logged k t a s)"
      using Cons.IH [of "logged k t a s"] Cons.prems by simp
    show ?thesis using True Cons.prems IH
      by (simp add: call_hook_discarding walk_Cons split: option.splits)
  qed
qed

lemma for_types_walk:
  assumes "discarding M s"
  shows "for_types M t as s =
    walk M t (concat (map (kind_pass (get_bucket t (commit_objects s))) as)) s"
  using assms
proof (induction as arbitrary: s)
  case Nil
  then show ?case by simp
next
  case (Cons a as)
  let ?b = "get_bucket t (commit_objects s)"
  have pass: "for_objects M t a (length ?b) (map fst ?b) s = walk M t (kind_pass ?b a) s"
    using for_objects_walk [OF Cons.prems, of t "length ?b" a "map fst ?b"]
    by (simp add: kind_pass_def)
  show ?case
  proof (cases "walk M t (kind_pass ?b a) s")
    case (Inl x)
    then show ?thesis using pass by (simp add: walk_append Let_def)
  next
    case (Inr s')
    have "discarding M s'" using Inr Cons.prems by (simp add: walk_Inr_discarding)
    then have "for_types M t as s' =
      walk M t (concat (map (kind_pass (get_bucket t (commit_objects s'))) as)) s'"
      by (rule Cons.IH)
    then show ?thesis using pass Inr by (simp add: walk_append Let_def walk_Inr_commit_objects)
  qed
qed

lemma do_commits_walk:
  assumes "discarding M s"
  shows "do_commits M t s =
    (case walk M t (dispatch_order (get_bucket t (commit_objects s))) s of
       Inl x \<Rightarrow> Inl x
     | Inr s' \<Rightarrow> Inr (s'\<lparr>commit_objects := clear_bucket t (commit_objects s)\<rparr>))"
  using for_types_walk [OF assms, of t "[Insert, Update, Delete]"]
  by (auto simp add: do_commits_def dispatch_order_def walk_Inr_commit_objects split: sum.splits)


lemma fired_no_raise: "first_raise M t xs = None \<Longrightarrow> fired M t xs = xs"
  by (induction M t xs rule: fired.induct) (auto split: option.splits)

lemma fired_take: "\<exists>n. fired M t xs = take n xs"
proof (induction M t xs rule: fired.induct)
  case (1 M t)
  then show ?case by simp
next
  case (2 M t obj a xs)
  show ?case
  proof (cases "outcome (M obj t a)")
    case None
    with 2 obtain n where "fired M t xs = take n xs" by auto
    then have "fired M t ((obj, a) # xs) = take (Suc n) ((obj, a) # xs)" using None by simp
    then show ?thesis by blast
  next
    case (Some e)
    then have "fired M t ((obj, a) # xs) = take (Suc 0) ((obj, a) # xs)" by simp
    then show ?thesis by blast
  qed
qed

lemma fired_split:
  assumes "\<forall>x \<in> set pre. outcome (M (fst x) t (snd x)) = None" and "outcome (M obj t a) = Some e"
  shows "fired M t (pre @ (obj, a) # post) = pre @ [(obj, a)] \<and>
         first_raise M t (pre @ (obj, a) # post) = Some e"
  using assms by (induction pre) auto

lemma tagged_take: "tagged t (take n xs) = take n (tagged t xs)"
  by (simp add: tagged_def take_map)

lemma calls_do_commits:
  assumes "discarding M s"
  shows "calls (final (do_commits M t s)) =
     calls s @ tagged t (fired M t (dispatch_order (get_bucket t (commit_objects s))))"
  by (simp add: do_commits_walk [OF assms] walk_def Let_def split: option.splits)

lemma do_commits_returns:
  assumes "discarding M s"
    and "first_raise M t (dispatch_order (get_bucket t (commit_objects s))) = None"
  shows "do_commits M t s =
     Inr (s\<lparr>calls := calls s @ tagged t (dispatch_order (get_bucket t (commit_objects s))),
            commit_objects := clear_bucket t (commit_objects s)\<rparr>)"
  using assms(2) by (simp add: do_commits_walk [OF assms(1)] walk_def Let_def fired_no_raise)

lemma do_commits_raises:
  assumes "discarding M s"
    and "first_raise M t (dispatch_order (get_bucket t (commit_objects s))) = Some e"
  shows "do_commits M t s =
     Inl (e, s\<lparr>calls := calls s @ tagged t (fired M t (dispatch_order (get_bucket t (commit_objects s))))\<rparr>)"
  using assms(2) by (simp add: do_commits_walk [OF assms(1)] walk_def Let_def)

lemma outcome_silenced [simp]: "outcome (silenced M obj t a) = outcome (M obj t a)"
  by (simp add: silenced_def split: hook.splits)

lemma writes_silenced [simp]: "writes (silenced M obj t a) = []"
  by (simp add: silenced_def split: hook.splits)

lemma discarding_silenced [simp]: "discarding (silenced M) s"
  by (simp add: discarding_def)

lemma fired_silenced [simp]: "fired (silenced M) t xs = fired M t xs"
  by (induction M t xs rule: fired.induct) (simp_all split: option.splits)

lemma first_raise_silenced [simp]: "first_raise (silenced M) t xs = first_raise M t xs"
  by (induction M t xs rule: first_raise.induct) (simp_all split: option.splits)

lemma walk_silenced [simp]: "walk (silenced M) t xs s = walk M t xs s"
  by (simp add: walk_def)

lemma do_commits_silenced:
  assumes "discarding M s"
  shows "do_commits M t s = do_commits (silenced M) t s"
  by (simp add: do_commits_walk [OF assms] do_commits_walk [OF discarding_silenced])

lemma discarding_locked [simp]: "discarding M (locked s)"
  by (simp add: discarding_def locked_def)

lemma do_before_commits_locked: "do_before_commits M s = do_commits M Before (locked s)"
  by (simp add: do_before_commits_def locked_def)

lemma tmp_transaction_silenced:
  assumes "discarding M s"
  shows "tmp_transaction (do_commits M t) s = tmp_transaction (do_commits (silenced M) t) s"
proof -
  have "discarding M (s\<lparr>txn_alloc := Suc (txn_alloc s), transaction := Some (Txn (txn_alloc s))\<rparr>)"
    using assms by (simp add: discarding_def)
  then have "do_commits M t (s\<lparr>txn_alloc := Suc (txn_alloc s), transaction := Some (Txn (txn_alloc s))\<rparr>) =
      do_commits (silenced M) t (s\<lparr>txn_alloc := Suc (txn_alloc s), transaction := Some (Txn (txn_alloc s))\<rparr>)"
    by (rule do_commits_silenced)
  then show ?thesis
    by (simp add: tmp_transaction_def SessionTransaction_def)
qed

lemma do_commits_Inr_iff:
  assumes "discarding M s"
  shows "(do_commits M t s = Inr s') =
    (first_raise M t (dispatch_order (get_bucket t (commit_objects s))) = None \<and>
     s' = s\<lparr>calls := calls s @ tagged t (dispatch_order (get_bucket t (commit_objects s))),
            commit_objects := clear_bucket t (commit_objects s)\<rparr>)"
proof (cases "first_raise M t (dispatch_order (get_bucket t (commit_objects s)))")
  case None
  then show ?thesis using do_commits_returns [OF assms None] by auto
next
  case (Some e)
  then show ?thesis using do_commits_raises [OF assms Some] by simp
qed

lemma tmp_transaction_returns:
  assumes "discarding M s"
    and "first_raise M t (dispatch_order (get_bucket t (commit_objects s))) = None"
  shows "tmp_transaction (do_commits M t) s =
    Inr (s\<lparr>calls := calls s @ tagged t (dispatch_order (get_bucket t (commit_objects s))),
           commit_objects := clear_bucket t (commit_objects s),
           txn_alloc := Suc (txn_alloc s)\<rparr>)"
proof -
  let ?s2 = "s\<lparr>txn_alloc := Suc (txn_alloc s), transaction := Some (Txn (txn_alloc s))\<rparr>"
  have d: "discarding M ?s2" using assms(1) by (simp add: discarding_def)
  have r: "first_raise M t (dispatch_order (get_bucket t (commit_objects ?s2))) = None"
    using assms(2) by simp
  show ?thesis
    by (simp add: tmp_transaction_def SessionTransaction_def do_commits_returns [OF d r])
qed

lemma tmp_transaction_raises:
  assumes "discarding M s"
    and "first_raise M t (dispatch_order (get_bucket t (commit_objects s))) = Some e"
  shows "tmp_transaction (do_commits M t) s =
    Inl (e, s\<lparr>calls := calls s @ tagged t (fired M t (dispatch_order (get_bucket t (commit_objects s)))),
           txn_alloc := Suc (txn_alloc s), transaction := Some (Txn (txn_alloc s))\<rparr>)"
proof -
  let ?s2 = "s\<lparr>txn_alloc := Suc (txn_alloc s), transaction := Some (Txn (txn_alloc s))\<rparr>"
  have d: "discarding M ?s2" using assms(1) by (simp add: discarding_def)
  have r: "first_raise M t (dispatch_order (get_bucket t (commit_objects ?s2))) = Some e"
    using assms(2) by simp
  show ?thesis
    by (simp add: tmp_transaction_def SessionTransaction_def do_commits_raises [OF d r])
qed

lemma do_after_commits_returns:
  assumes "discarding M s"
    and "first_raise M After (dispatch_order (after (commit_objects s))) = None"
  shows "do_after_commits M s =
    Inr (s\<lparr>calls := calls s @ tagged After (dispatch_order (after (commit_objects s))),
           commit_objects := (commit_objects s)\<lparr>lock := False, after := [], failed := []\<rparr>,
           txn_alloc := Suc (txn_alloc s)\<rparr>)"
  using assms(2) tmp_transaction_returns [OF assms(1), of After]
  by (simp add: do_after_commits_def)

lemma do_failed_commits_returns:
  assumes "discarding M s"
    and "first_raise M Failed (dispatch_order (failed (commit_objects s))) = None"
  shows "do_failed_commits M s =
    Inr (s\<lparr>calls := calls s @ tagged Failed (dispatch_order (failed (commit_objects s))),
           commit_objects := (commit_objects s)\<lparr>lock := False, after := [], failed := []\<rparr>,
           txn_alloc := Suc (txn_alloc s)\<rparr>)"
  using assms(2) tmp_transaction_returns [OF assms(1), of Failed]
  by (simp add: do_failed_commits_def)

lemma do_after_commits_Inr:
  assumes "discarding M s" and "do_after_commits M s = Inr s'"
  shows "first_raise M After (dispatch_order (after (commit_objects s))) = None"
proof (cases "first_raise M After (dispatch_order (after (commit_objects s)))")
  case None
  then show ?thesis .
next
  case (Some e)
  then show ?thesis using assms(2) tmp_transaction_raises [OF assms(1), of After e]
    by (simp add: do_after_commits_def)
qed

lemma do_failed_commits_Inr:
  assumes "discarding M s" and "do_failed_commits M s = Inr s'"
  shows "first_raise M Failed (dispatch_order (failed (commit_objects s))) = None"
proof (cases "first_raise M Failed (dispatch_order (failed (commit_objects s)))")
  case None
  then show ?thesis .
next
  case (Some e)
  then show ?thesis using assms(2) tmp_transaction_raises [OF assms(1), of Failed e]
    by (simp add: do_failed_commits_def)
qed

lemma before_commit_Inr:
  assumes "before_commit M s = Inr s1"
  shows "lock (commit_objects s1) \<and> before (commit_objects s1) = [] \<and> after_failed_commit_active s1"
proof -
  let ?s = "locked ((flush s)\<lparr>after_failed_commit_active := True\<rparr>)"
  have "do_commits M Before ?s = Inr s1"
    using assms by (simp add: before_commit_def do_before_commits_locked Let_def)
  then have "s1 = ?s\<lparr>calls := calls ?s @ tagged Before (dispatch_order (get_bucket Before (commit_objects ?s))),
            commit_objects := clear_bucket Before (commit_objects ?s)\<rparr>"
    by (simp add: do_commits_Inr_iff [OF discarding_locked])
  then show ?thesis by (simp add: locked_def)
qed

lemma after_commit_silenced:
  assumes "lock (commit_objects s)"
  shows "after_commit M s = after_commit (silenced M) s"
proof -
  have "discarding M (s\<lparr>after_failed_commit_active := False\<rparr>)"
    using assms by (simp add: discarding_def)
  then have "tmp_transaction (do_commits M After) (s\<lparr>after_failed_commit_active := False\<rparr>) =
      tmp_transaction (do_commits (silenced M) After) (s\<lparr>after_failed_commit_active := False\<rparr>)"
    by (rule tmp_transaction_silenced)
  then show ?thesis
    by (simp add: after_commit_def do_after_commits_def)
qed

lemma after_failed_commit_silenced:
  assumes "lock (commit_objects s)"
  shows "after_failed_commit M s = after_failed_commit (silenced M) s"
proof -
  have "discarding M s" using assms by (simp add: discarding_def)
  then have "tmp_transaction (do_commits M Failed) s = tmp_transaction (do_commits (silenced M) Failed) s"
    by (rule tmp_transaction_silenced)
  then show ?thesis
    by (simp add: after_failed_commit_def do_failed_commits_def)
qed

lemma before_commit_silenced: "before_commit M s = before_commit (silenced M) s"
proof -
  have "do_commits M Before (locked ((flush s)\<lparr>after_failed_commit_active := True\<rparr>)) =
        do_commits (silenced M) Before (locked ((flush s)\<lparr>after_failed_commit_active := True\<rparr>))"
    by (rule do_commits_silenced) simp
  then show ?thesis by (simp add: before_commit_def Let_def do_before_commits_locked)
qed

lemma after_commit_Inr_commit_objects:
  assumes "lock (commit_objects s)" and "after_commit M s = Inr s'"
  shows "commit_objects s' = (commit_objects s)\<lparr>lock := False, after := [], failed := []\<rparr>"
proof -
  let ?s = "s\<lparr>after_failed_commit_active := False\<rparr>"
  have d: "discarding M ?s" using assms(1) by (simp add: discarding_def)
  have r: "do_after_commits M ?s = Inr s'" using assms(2) by (simp add: after_commit_def)
  have n: "first_raise M After (dispatch_order (after (commit_objects ?s))) = None"
    using do_after_commits_Inr [OF d r] .
  have "Inr s' = Inr (?s\<lparr>calls := calls ?s @ tagged After (dispatch_order (after (commit_objects ?s))),
           commit_objects := (commit_objects ?s)\<lparr>lock := False, after := [], failed := []\<rparr>,
           txn_alloc := Suc (txn_alloc ?s)\<rparr>)"
    using do_after_commits_returns [OF d n] r by simp
  then have "s' = ?s\<lparr>calls := calls ?s @ tagged After (dispatch_order (after (commit_objects ?s))),
           commit_objects := (commit_objects ?s)\<lparr>lock := False, after := [], failed := []\<rparr>,
           txn_alloc := Suc (txn_alloc ?s)\<rparr>" by (simp only: sum.inject)
  then show ?thesis by simp
qed

lemma after_failed_commit_Inr_commit_objects:
  assumes "lock (commit_objects s)" and "after_failed_commit_active s"
    and "after_failed_commit M s = Inr s'"
  shows "commit_objects s' = (commit_objects s)\<lparr>lock := False, after := [], failed := []\<rparr>"
proof -
  have d: "discarding M s" using assms(1) by (simp add: discarding_def)
  obtain s1 where r: "do_failed_commits M s = Inr s1"
    and s': "s' = s1\<lparr>after_failed_commit_active := False\<rparr>"
    using assms(2,3) by (auto simp add: after_failed_commit_def split: sum.splits)
  have n: "first_raise M Failed (dispatch_order (failed (commit_objects s))) = None"
    using do_failed_commits_Inr [OF d r] .
  have "Inr s1 = Inr (s\<lparr>calls := calls s @ tagged Failed (dispatch_order (failed (commit_objects s))),
           commit_objects := (commit_objects s)\<lparr>lock := False, after := [], failed := []\<rparr>,
           txn_alloc := Suc (txn_alloc s)\<rparr>)"
    using do_failed_commits_returns [OF d n] r by simp
  then have "s1 = s\<lparr>calls := calls s @ tagged Failed (dispatch_order (failed (commit_objects s))),
           commit_objects := (commit_objects s)\<lparr>lock := False, after := [], failed := []\<rparr>,
           txn_alloc := Suc (txn_alloc s)\<rparr>" by (simp only: sum.inject)
  then show ?thesis using s' by simp
qed

lemma emptied_is_init:
  assumes "before c = []"
  shows "c\<lparr>lock := False, after := [], failed := []\<rparr> = CommitObjects_init"
  using assms by (simp add: CommitObjects_init_def)

lemma dispatch_order_single [simp]: "dispatch_order [(obj, {a})] = [(obj, a)]"
  by (cases a) (simp_all add: dispatch_order_def kind_pass_def getitem_def)

section \<open>Recording the same mutation again\<close>

lemma bucket_add_idem: "bucket_add (bucket_add b obj a) obj a = bucket_add b obj a"
  by (induction b obj a rule: bucket_add.induct) auto

lemma map_fst_bucket_add:
  "map fst (bucket_add b obj a) =
     (if obj \<in> set (map fst b) then map fst b else map fst b @ [obj])"
  by (induction b obj a rule: bucket_add.induct) auto

lemma map_of_bucket_add:
  "map_of (bucket_add b obj a) k =
     (if k = obj then Some (insert a (case map_of b obj of None \<Rightarrow> {} | Some S \<Rightarrow> S))
      else map_of b k)"
proof (induction b)
  case Nil
  then show ?case by simp
next
  case (Cons p b)
  obtain k0 S where p: "p = (k0, S)" by (cases p)
  show ?case
  proof (cases "k = obj")
    case True
    then show ?thesis using Cons.IH by (simp add: p)
  next
    case False
    then show ?thesis using Cons.IH by (simp add: p)
  qed
qed

lemma getitem_bucket_add:
  "getitem (bucket_add b obj a) k =
     (if k = obj then insert a (getitem b obj) else getitem b k)"
  by (simp add: getitem_def map_of_bucket_add)

lemma distinct_bucket_add:
  "distinct (map fst b) \<Longrightarrow> distinct (map fst (bucket_add b obj a))"
  by (simp add: map_fst_bucket_add)

lemma count_list_distinct: "distinct xs \<Longrightarrow> count_list xs x = (if x \<in> set xs then 1 else 0)"
  by (induction xs) auto

lemma get_bucket_add:
  assumes "\<not> lock (commit_objects s)"
  shows "get_bucket t' (commit_objects (add_commit_object t obj a s)) =
     (if t' = t then bucket_add (get_bucket t (commit_objects s)) obj a
      else get_bucket t' (commit_objects s))"
  using assms
  by (cases t; cases t')
    (simp_all add: add_before_commit_object_def add_after_commit_object_def
      add_failed_commit_object_def)

lemma lock_add_commit_object [simp]:
  "lock (commit_objects (add_commit_object t obj a s)) = lock (commit_objects s)"
  by (cases t)
    (simp_all add: add_before_commit_object_def add_after_commit_object_def
      add_failed_commit_object_def)

lemma calls_add_commit_object [simp]: "calls (add_commit_object t obj a s) = calls s"
  by (cases t)
    (simp_all add: add_before_commit_object_def add_after_commit_object_def
      add_failed_commit_object_def)

lemma add_commit_object_frame:
  "add_commit_object t obj a s = s\<lparr>commit_objects := commit_objects (add_commit_object t obj a s)\<rparr>"
  by (cases t)
    (simp_all add: add_before_commit_object_def add_after_commit_object_def
      add_failed_commit_object_def)

lemma add_commit_object_idem:
  "add_commit_object t obj a (add_commit_object t obj a s) = add_commit_object t obj a s"
  by (cases t)
    (simp_all add: add_before_commit_object_def add_after_commit_object_def
      add_failed_commit_object_def bucket_add_idem)

lemma funpow_add_commit_object:
  "1 \<le> N \<Longrightarrow> (add_commit_object t obj a ^^ N) s = add_commit_object t obj a s"
proof (induction N)
  case 0
  then show ?case by simp
next
  case (Suc N)
  show ?case
  proof (cases "N = 0")
    case True
    then show ?thesis by simp
  next
    case False
    then have "(add_commit_object t obj a ^^ N) s = add_commit_object t obj a s"
      using Suc.IH by simp
    then show ?thesis by (simp add: add_commit_object_idem)
  qed
qed

lemma count_kind_pass:
  "count_list (kind_pass b a') (obj, a) =
     (if a' = a \<and> a \<in> getitem b obj then count_list (map fst b) obj else 0)"
proof -
  have "count_list (map (\<lambda>k. (k, a')) (filter (\<lambda>k. a' \<in> getitem b k) ks)) (obj, a) =
     (if a' = a \<and> a \<in> getitem b obj then count_list ks obj else 0)" for ks
    by (induction ks) auto
  then show ?thesis by (simp add: kind_pass_def)
qed

lemma count_dispatch_order:
  "count_list (dispatch_order b) (obj, a) =
     (if a \<in> getitem b obj then count_list (map fst b) obj else 0)"
  by (cases a) (simp_all add: dispatch_order_def count_kind_pass)

lemma count_tagged: "count_list (tagged t xs) (obj, t, a) = count_list xs (obj, a)"
  by (induction xs) (auto simp add: tagged_def)

lemma count_take_le: "count_list (take n xs) x \<le> count_list xs x"
proof (induction xs arbitrary: n)
  case Nil
  then show ?case by simp
next
  case (Cons y ys)
  show ?case using Cons.IH by (cases n) (auto intro: le_SucI)
qed

section \<open>Listeners that record the same mutation\<close>

lemma record_all_frame:
  "record_all ws s = s\<lparr>commit_objects := commit_objects (record_all ws s)\<rparr>"
proof (induction ws s rule: record_all.induct)
  case (1 s)
  then show ?case by simp
next
  case (2 t obj a ws s)
  let ?s' = "add_commit_object t obj a s"
  have "record_all ws ?s' = ?s'\<lparr>commit_objects := commit_objects (record_all ws ?s')\<rparr>"
    by (rule "2.IH")
  also have "\<dots> = (s\<lparr>commit_objects := commit_objects ?s'\<rparr>)\<lparr>commit_objects :=
      commit_objects (record_all ws ?s')\<rparr>"
    using add_commit_object_frame [of t obj a s] by simp
  also have "\<dots> = s\<lparr>commit_objects := commit_objects (record_all ws ?s')\<rparr>"
    by simp
  finally show ?case by simp
qed

lemma lock_record_all [simp]:
  "lock (commit_objects (record_all ws s)) = lock (commit_objects s)"
  by (induction ws s rule: record_all.induct) simp_all

lemma get_bucket_record_all:
  assumes "\<forall>w \<in> set ws. fst (snd w) = obj \<and> snd (snd w) = a"
    and "\<not> lock (commit_objects s)"
  shows "get_bucket t (commit_objects (record_all ws s)) =
     (if (t, obj, a) \<in> set ws then bucket_add (get_bucket t (commit_objects s)) obj a
      else get_bucket t (commit_objects s))"
  using assms
proof (induction ws arbitrary: s)
  case Nil
  then show ?case by simp
next
  case (Cons w ws)
  obtain t' where w: "w = (t', obj, a)"
    using Cons.prems(1) by (cases w) auto
  let ?s' = "add_commit_object t' obj a s"
  have u: "\<not> lock (commit_objects ?s')" using Cons.prems(2) by simp
  have rest: "\<forall>w \<in> set ws. fst (snd w) = obj \<and> snd (snd w) = a"
    using Cons.prems(1) by simp
  have IH: "get_bucket t (commit_objects (record_all ws ?s')) =
     (if (t, obj, a) \<in> set ws then bucket_add (get_bucket t (commit_objects ?s')) obj a
      else get_bucket t (commit_objects ?s'))"
    using rest u by (rule Cons.IH)
  have step: "get_bucket t (commit_objects ?s') =
     (if t = t' then bucket_add (get_bucket t' (commit_objects s)) obj a
      else get_bucket t (commit_objects s))"
    using get_bucket_add [OF Cons.prems(2), of t t' obj a] by simp
  show ?case
  proof (cases "t = t'")
    case True
    then show ?thesis using IH step by (simp add: w bucket_add_idem)
  next
    case False
    then show ?thesis using IH step by (simp add: w)
  qed
qed

lemma record_all_same_set:
  assumes "\<forall>w \<in> set ws. fst (snd w) = obj \<and> snd (snd w) = a"
    and "\<forall>w \<in> set ws'. fst (snd w) = obj \<and> snd (snd w) = a"
    and "set ws = set ws'"
  shows "record_all ws s = record_all ws' s"
proof (cases "lock (commit_objects s)")
  case True
  then show ?thesis by (simp add: record_all_locked)
next
  case False
  have b: "get_bucket t (commit_objects (record_all ws s)) =
      get_bucket t (commit_objects (record_all ws' s))" for t
    using assms(3)
    by (simp add: get_bucket_record_all [OF assms(1) False] get_bucket_record_all [OF assms(2) False])
  have "commit_objects (record_all ws s) = commit_objects (record_all ws' s)"
  proof (rule CommitObjects.equality)
    show "lock (commit_objects (record_all ws s)) = lock (commit_objects (record_all ws' s))"
      by simp
    show "before (commit_objects (record_all ws s)) = before (commit_objects (record_all ws' s))"
      using b [of Before] by simp
    show "after (commit_objects (record_all ws s)) = after (commit_objects (record_all ws' s))"
      using b [of After] by simp
    show "failed (commit_objects (record_all ws s)) = failed (commit_objects (record_all ws' s))"
      using b [of Failed] by simp
    show "CommitObjects.more (commit_objects (record_all ws s)) =
        CommitObjects.more (commit_objects (record_all ws' s))"
      by simp
  qed
  then show ?thesis
    using record_all_frame [of ws s] record_all_frame [of ws' s] by simp
qed

lemma listener_calls_same:
  "\<forall>w \<in> set (listener_calls reg propagate cls action obj).
     fst (snd w) = obj \<and> snd (snd w) = action"
  by (auto simp add: listener_calls_def)

lemma set_listener_calls:
  "set (listener_calls reg propagate cls action obj) =
     {(t, obj, action) | t. \<exists>target. (target, t, action) \<in> set reg \<and> applies propagate target cls}"
  by (auto simp add: listener_calls_def) force

lemma emit_same_set:
  assumes "set (listener_calls reg p cls action obj) = set (listener_calls reg' p' cls' action obj)"
  shows "emit reg p cls action obj s = emit reg' p' cls' action obj s"
  unfolding emit_def
  using listener_calls_same listener_calls_same assms by (rule record_all_same_set)

lemma register_hooks_append:
  "register_hooks cls methods reg = reg @ map (\<lambda>(t, a). (cls, t, a)) methods"
  by (induction cls methods reg rule: register_hooks.induct) simp_all

lemma overridden_hooks_CommitMixin [simp]: "overridden_hooks CommitMixin = []"
  by (simp add: overridden_hooks_def)

lemma overridden_hooks_base:
  "set (overridden_hooks base) \<subseteq> set (overridden_hooks (Subclass n own base))"
  by (auto simp add: overridden_hooks_def)

lemma overridden_hooks_mro:
  "c \<in> set (mro cls) \<Longrightarrow> set (overridden_hooks c) \<subseteq> set (overridden_hooks cls)"
proof (induction cls)
  case CommitMixin
  then show ?case by simp
next
  case (Subclass n own base)
  show ?case
  proof (cases "c = Subclass n own base")
    case True
    then show ?thesis by simp
  next
    case False
    then have "c \<in> set (mro base)" using Subclass.prems by simp
    then have "set (overridden_hooks c) \<subseteq> set (overridden_hooks base)" by (rule Subclass.IH)
    then show ?thesis using overridden_hooks_base [of base n own] by blast
  qed
qed

lemma set_declare_class:
  "set (declare_class cls reg) =
     set reg \<union> {(c, t, a) | c t a. c \<in> set (mro cls) \<and> (t, a) \<in> set (overridden_hooks c)}"
proof (induction cls)
  case CommitMixin
  then show ?case by simp
next
  case (Subclass n own base)
  have "set (declare_class (Subclass n own base) reg) =
      set (declare_class base reg) \<union>
      {(Subclass n own base, t, a) | t a. (t, a) \<in> set (overridden_hooks (Subclass n own base))}"
    by (auto simp add: init_subclass_def register_hooks_append)
  then show ?case using Subclass.IH by auto
qed

lemma head_mro [simp]: "cls \<in> set (mro cls)"
  by (cases cls) simp_all

lemma set_listener_calls_declared:
  "set (listener_calls (declare_class cls []) propagate cls action obj) =
     {(t, obj, action) | t. (t, action) \<in> set (overridden_hooks cls)}"
proof -
  have "(\<exists>target. (target, t, action) \<in> set (declare_class cls []) \<and> applies propagate target cls)
      = ((t, action) \<in> set (overridden_hooks cls))" for t
  proof
    assume "\<exists>target. (target, t, action) \<in> set (declare_class cls []) \<and> applies propagate target cls"
    then obtain target where "target \<in> set (mro cls)"
      and "(t, action) \<in> set (overridden_hooks target)"
      by (auto simp add: set_declare_class)
    then show "(t, action) \<in> set (overridden_hooks cls)"
      using overridden_hooks_mro by blast
  next
    assume "(t, action) \<in> set (overridden_hooks cls)"
    then have "(cls, t, action) \<in> set (declare_class cls []) \<and> applies propagate cls cls"
      by (simp add: set_declare_class applies_def)
    then show "\<exists>target. (target, t, action) \<in> set (declare_class cls []) \<and> applies propagate target cls"
      by blast
  qed
  then show ?thesis by (simp add: set_listener_calls)
qed

lemma calls_record_all [simp]: "calls (record_all ws s) = calls s"
  by (induction ws s rule: record_all.induct) simp_all

lemma fired_single [simp]: "fired M t [(obj, a)] = [(obj, a)]"
  by (simp split: option.splits)

lemma dispatch_order_Nil: "dispatch_order [] = []"
  by (simp add: dispatch_order_def kind_pass_def)

section \<open>The order of dispatch\<close>

text \<open>
  C2. \<^verbatim>\<open>_do_commits\<close> invokes the hooks of a bucket in the order of \<open>dispatch_order\<close>:
  all insert hooks, then all update hooks, then all delete hooks, the entities of each
  kind in the insertion order of the bucket. The hooks invoked are an initial part of
  that list (all of it when no hook raises, and then the bucket is cleared). In
  particular, with one entity tracked for delete and another for insert, the insert hook
  runs before the delete hook whichever entity entered the bucket first. This holds for
  each of the three buckets, whenever the hooks cannot write into the bucket that is
  being iterated: the lock is set, as it is in every dispatch of a commit, or no hook
  attempts a write.
\<close>

theorem do_commits_kind_priority:
  assumes "discarding M s"
  shows "dispatch_order (get_bucket t (commit_objects s)) =
           kind_pass (get_bucket t (commit_objects s)) Insert @
           kind_pass (get_bucket t (commit_objects s)) Update @
           kind_pass (get_bucket t (commit_objects s)) Delete
       \<and> (\<exists>n. calls (final (do_commits M t s)) =
             calls s @ take n (tagged t (dispatch_order (get_bucket t (commit_objects s)))))
       \<and> (first_raise M t (dispatch_order (get_bucket t (commit_objects s))) = None \<longrightarrow>
            do_commits M t s =
              Inr (s\<lparr>calls := calls s @ tagged t (dispatch_order (get_bucket t (commit_objects s))),
                     commit_objects := clear_bucket t (commit_objects s)\<rparr>))
       \<and> (d \<noteq> i \<and> outcome (M i t Insert) = None
            \<and> (get_bucket t (commit_objects s) = [(d, {Delete}), (i, {Insert})]
                \<or> get_bucket t (commit_objects s) = [(i, {Insert}), (d, {Delete})]) \<longrightarrow>
            calls (final (do_commits M t s)) = calls s @ [(i, t, Insert), (d, t, Delete)])"
proof (intro conjI impI)
  show "dispatch_order (get_bucket t (commit_objects s)) =
           kind_pass (get_bucket t (commit_objects s)) Insert @
           kind_pass (get_bucket t (commit_objects s)) Update @
           kind_pass (get_bucket t (commit_objects s)) Delete"
    by (simp add: dispatch_order_def)
next
  obtain n where "fired M t (dispatch_order (get_bucket t (commit_objects s))) =
      take n (dispatch_order (get_bucket t (commit_objects s)))"
    using fired_take by blast
  then have "calls (final (do_commits M t s)) =
      calls s @ take n (tagged t (dispatch_order (get_bucket t (commit_objects s))))"
    by (simp add: calls_do_commits [OF assms] tagged_take)
  then show "\<exists>n. calls (final (do_commits M t s)) =
      calls s @ take n (tagged t (dispatch_order (get_bucket t (commit_objects s))))"
    by blast
next
  assume "first_raise M t (dispatch_order (get_bucket t (commit_objects s))) = None"
  with assms show "do_commits M t s =
      Inr (s\<lparr>calls := calls s @ tagged t (dispatch_order (get_bucket t (commit_objects s))),
             commit_objects := clear_bucket t (commit_objects s)\<rparr>)"
    by (rule do_commits_returns)
next
  assume h: "d \<noteq> i \<and> outcome (M i t Insert) = None
            \<and> (get_bucket t (commit_objects s) = [(d, {Delete}), (i, {Insert})]
                \<or> get_bucket t (commit_objects s) = [(i, {Insert}), (d, {Delete})])"
  then have "dispatch_order (get_bucket t (commit_objects s)) = [(i, Insert), (d, Delete)]"
    by (auto simp add: dispatch_order_def kind_pass_def getitem_def)
  then show "calls (final (do_commits M t s)) = calls s @ [(i, t, Insert), (d, t, Delete)]"
    using h by (simp add: calls_do_commits [OF assms] tagged_def split: option.splits)
qed

theorem do_commits_kind_priority_witness:
  "discarding quiet_methods two_entities
   \<and> get_bucket Before (commit_objects two_entities) = [(1, {Delete}), (2, {Insert})]
   \<and> calls (final (do_commits quiet_methods Before two_entities)) =
       [(2, Before, Insert), (1, Before, Delete)]"
  using do_commits_kind_priority [where M = quiet_methods and s = two_entities and t = Before
      and d = 1 and i = 2]
  by (simp add: discarding_def two_entities_def quiet_methods_def session_init_def)

section \<open>A hook that raises\<close>

text \<open>
  C5, as the code has it. When the hooks before \<open>(obj, a)\<close> in the dispatch order
  return and the hook of \<open>(obj, a)\<close> raises \<open>e\<close>, \<^verbatim>\<open>_do_commits\<close> ends with \<open>e\<close>: the
  exception is not caught, the hooks after it are not invoked, and the session is the
  one before the dispatch but for the log of calls. The bucket is not cleared at all,
  since \<^verbatim>\<open>objects.clear()\<close> stands after the loops: the entities whose hooks ran are
  still in it, with those whose hooks did not run.
\<close>

theorem hook_raise_leaves_bucket:
  assumes "discarding M s"
    and "dispatch_order (get_bucket t (commit_objects s)) = pre @ (obj, a) # post"
    and "\<forall>x \<in> set pre. outcome (M (fst x) t (snd x)) = None"
    and "outcome (M obj t a) = Some e"
  shows "do_commits M t s = Inl (e, s\<lparr>calls := calls s @ tagged t (pre @ [(obj, a)])\<rparr>)"
proof -
  have "fired M t (pre @ (obj, a) # post) = pre @ [(obj, a)] \<and>
        first_raise M t (pre @ (obj, a) # post) = Some e"
    using assms(3,4) by (rule fired_split)
  then show ?thesis using assms(2) by (simp add: do_commits_raises [OF assms(1)])
qed

theorem hook_raise_leaves_bucket_witness:
  "discarding raising_methods two_entities
   \<and> dispatch_order (get_bucket After (commit_objects two_entities)) =
       [(1, Insert)] @ (2, Insert) # [(3, Insert)]
   \<and> do_commits raising_methods After two_entities =
       Inl (HookFailure 0, two_entities\<lparr>calls := [(1, After, Insert), (2, After, Insert)]\<rparr>)"
  using hook_raise_leaves_bucket [of raising_methods two_entities After "[(1, Insert)]" 2 Insert
      "[(3, Insert)]" "HookFailure 0"]
  by (simp add: discarding_def two_entities_def raising_methods_def dispatch_order_def kind_pass_def
      getitem_def tagged_def session_init_def)

text \<open>
  The claim as the specification words it fails: entity 1 was processed before the hook
  of entity 2 raised, and it is still in the bucket.
\<close>

theorem hook_raise_partial_clear_counterexample:
  "do_commits raising_methods After two_entities =
       Inl (HookFailure 0, two_entities\<lparr>calls := [(1, After, Insert), (2, After, Insert)]\<rparr>)
   \<and> after (commit_objects (two_entities\<lparr>calls := [(1, After, Insert), (2, After, Insert)]\<rparr>)) =
        [(1, {Insert}), (2, {Insert}), (3, {Insert})]"
  by (simp add: do_commits_def two_entities_def raising_methods_def call_hook_def logged_def
      getitem_def session_init_def)

section \<open>Writes under the lock\<close>

text \<open>
  C1. While the lock is set, each of the three recording methods returns the session as
  it was, so any sequence of writes a hook attempts leaves it as it was, and no write
  raises. A dispatch under the lock therefore runs exactly as it would if the hooks
  attempted no write at all (\<open>silenced\<close>): the same hooks are invoked, the same result
  or exception comes out, the same session. That holds for the dispatch of each bucket
  and for the three listeners of the lifecycle; \<^verbatim>\<open>_do_before_commits\<close> sets the lock
  itself. From the start of the before-dispatch to the end of the after- or
  failed-dispatch the lock stays set, and when that dispatch completes every bucket is
  empty: nothing that a hook tried to record is in any of them.
\<close>

theorem lock_discards_writes:
  "(lock (commit_objects s) \<longrightarrow>
      add_before_commit_object obj a s = s \<and> add_after_commit_object obj a s = s
      \<and> add_failed_commit_object obj a s = s \<and> record_all ws s = s
      \<and> do_commits M t s = do_commits (silenced M) t s
      \<and> after_commit M s = after_commit (silenced M) s
      \<and> after_failed_commit M s = after_failed_commit (silenced M) s)
   \<and> do_before_commits M s = do_before_commits (silenced M) s
   \<and> before_commit M s = before_commit (silenced M) s
   \<and> (before_commit M s = Inr s1 \<and> (after_commit M s1 = Inr s2 \<or> after_failed_commit M s1 = Inr s2) \<longrightarrow>
        lock (commit_objects s1) \<and> commit_objects s2 = CommitObjects_init)"
proof (intro conjI impI)
  assume l: "lock (commit_objects s)"
  show "add_before_commit_object obj a s = s" using l by (simp add: add_before_commit_object_def)
  show "add_after_commit_object obj a s = s" using l by (simp add: add_after_commit_object_def)
  show "add_failed_commit_object obj a s = s" using l by (simp add: add_failed_commit_object_def)
  show "record_all ws s = s" using l by (rule record_all_locked)
  show "do_commits M t s = do_commits (silenced M) t s"
    by (rule do_commits_silenced) (simp add: discarding_def l)
  show "after_commit M s = after_commit (silenced M) s" using l by (rule after_commit_silenced)
  show "after_failed_commit M s = after_failed_commit (silenced M) s"
    using l by (rule after_failed_commit_silenced)
next
  show "do_before_commits M s = do_before_commits (silenced M) s"
    unfolding do_before_commits_locked by (rule do_commits_silenced) simp
next
  show "before_commit M s = before_commit (silenced M) s" by (rule before_commit_silenced)
next
  assume h: "before_commit M s = Inr s1 \<and> (after_commit M s1 = Inr s2 \<or> after_failed_commit M s1 = Inr s2)"
  then show "lock (commit_objects s1)" using before_commit_Inr [of M s s1] by simp
next
  assume h: "before_commit M s = Inr s1 \<and> (after_commit M s1 = Inr s2 \<or> after_failed_commit M s1 = Inr s2)"
  then have s1: "lock (commit_objects s1)" "before (commit_objects s1) = []" "after_failed_commit_active s1"
    using before_commit_Inr [of M s s1] by simp_all
  from h consider "after_commit M s1 = Inr s2" | "after_failed_commit M s1 = Inr s2" by blast
  then have "commit_objects s2 = (commit_objects s1)\<lparr>lock := False, after := [], failed := []\<rparr>"
  proof cases
    case 1
    then show ?thesis using s1(1) by (rule after_commit_Inr_commit_objects [rotated])
  next
    case 2
    show ?thesis using s1(1) s1(3) 2 by (rule after_failed_commit_Inr_commit_objects)
  qed
  then show "commit_objects s2 = CommitObjects_init" using s1(2) by (simp add: emptied_is_init)
qed


theorem lock_discards_writes_witness:
  "lock (commit_objects two_entities)
   \<and> add_after_commit_object 9 Update two_entities = two_entities
   \<and> record_all (writes (writing_methods 1 After Insert)) two_entities = two_entities
   \<and> do_commits writing_methods After two_entities =
       do_commits (silenced writing_methods) After two_entities
   \<and> before_commit writing_methods one_insert = Inr one_insert_before
   \<and> after_commit writing_methods one_insert_before = Inr one_insert_after
   \<and> lock (commit_objects one_insert_before)
   \<and> commit_objects one_insert_after = CommitObjects_init"
proof -
  have l: "lock (commit_objects two_entities)"
    by (simp add: two_entities_def)
  have b: "before_commit writing_methods one_insert = Inr one_insert_before"
    by (simp add: before_commit_def flush_def do_before_commits_def do_commits_def call_hook_def
        Let_def logged_def getitem_def one_insert_def one_insert_before_def session_init_def
        CommitObjects_init_def writing_methods_def add_before_commit_object_def
        add_after_commit_object_def add_failed_commit_object_def)
  have a: "after_commit writing_methods one_insert_before = Inr one_insert_after"
    by (simp add: after_commit_def do_after_commits_def tmp_transaction_def SessionTransaction_def
        do_commits_def call_hook_def Let_def logged_def getitem_def one_insert_before_def
        one_insert_after_def CommitObjects_init_def writing_methods_def
        add_before_commit_object_def add_after_commit_object_def add_failed_commit_object_def)
  have under_lock:
    "add_before_commit_object 9 Update two_entities = two_entities
     \<and> add_after_commit_object 9 Update two_entities = two_entities
     \<and> add_failed_commit_object 9 Update two_entities = two_entities
     \<and> record_all (writes (writing_methods 1 After Insert)) two_entities = two_entities
     \<and> do_commits writing_methods After two_entities =
         do_commits (silenced writing_methods) After two_entities
     \<and> after_commit writing_methods two_entities = after_commit (silenced writing_methods) two_entities
     \<and> after_failed_commit writing_methods two_entities =
         after_failed_commit (silenced writing_methods) two_entities"
    using lock_discards_writes [where s = two_entities and obj = 9 and a = Update
        and ws = "writes (writing_methods 1 After Insert)" and M = writing_methods and t = After,
        THEN conjunct1] l
    by (rule mp)
  have cycle: "lock (commit_objects one_insert_before)
     \<and> commit_objects one_insert_after = CommitObjects_init"
    using lock_discards_writes [where s = one_insert and M = writing_methods
        and ?s1.0 = one_insert_before and ?s2.0 = one_insert_after,
        THEN conjunct2, THEN conjunct2, THEN conjunct2] a b
    by blast
  have w1: "add_after_commit_object 9 Update two_entities = two_entities"
    using under_lock by blast
  have w2: "record_all (writes (writing_methods 1 After Insert)) two_entities = two_entities"
    using under_lock by blast
  have w3: "do_commits writing_methods After two_entities =
         do_commits (silenced writing_methods) After two_entities"
    using under_lock by blast
  have c1: "lock (commit_objects one_insert_before)"
    using cycle by blast
  have c2: "commit_objects one_insert_after = CommitObjects_init"
    using cycle by blast
  show ?thesis
    by (intro conjI) (rule l w1 w2 w3 b a c1 c2)+
qed

section \<open>The listeners of commit and rollback\<close>

lemma after_commit_returns:
  assumes "discarding M s"
    and "first_raise M After (dispatch_order (after (commit_objects s))) = None"
  shows "after_commit M s =
    Inr (s\<lparr>after_failed_commit_active := False,
           calls := calls s @ tagged After (dispatch_order (after (commit_objects s))),
           commit_objects := (commit_objects s)\<lparr>lock := False, after := [], failed := []\<rparr>,
           txn_alloc := Suc (txn_alloc s)\<rparr>)"
proof -
  let ?s = "s\<lparr>after_failed_commit_active := False\<rparr>"
  have d: "discarding M ?s" using assms(1) by (simp add: discarding_def)
  have r: "first_raise M After (dispatch_order (after (commit_objects ?s))) = None"
    using assms(2) by simp
  show ?thesis by (simp add: after_commit_def do_after_commits_returns [OF d r])
qed

lemma commit_of_one_insert:
  assumes "outcome (M E Before Insert) = None" and "outcome (M E After Insert) = None"
  shows "before_commit M (session_init\<lparr>pending := [(Before, E, Insert), (After, E, Insert), (Failed, E, Insert)]\<rparr>) =
      Inr \<lparr>commit_objects = \<lparr>lock = True, before = [], after = [(E, {Insert})], failed = [(E, {Insert})]\<rparr>,
           after_failed_commit_active = True, transaction = None, txn_alloc = 0, pending = [],
           calls = [(E, Before, Insert)]\<rparr>
    \<and> after_commit M
        \<lparr>commit_objects = \<lparr>lock = True, before = [], after = [(E, {Insert})], failed = [(E, {Insert})]\<rparr>,
         after_failed_commit_active = True, transaction = None, txn_alloc = 0, pending = [],
         calls = [(E, Before, Insert)]\<rparr> =
      Inr \<lparr>commit_objects = CommitObjects_init,
           after_failed_commit_active = False, transaction = None, txn_alloc = 1, pending = [],
           calls = [(E, Before, Insert), (E, After, Insert)]\<rparr>"
proof
  let ?s0 = "session_init\<lparr>pending := [(Before, E, Insert), (After, E, Insert), (Failed, E, Insert)]\<rparr>"
  let ?f = "\<lparr>commit_objects = \<lparr>lock = False, before = [(E, {Insert})], after = [(E, {Insert})], failed = [(E, {Insert})]\<rparr>,
           after_failed_commit_active = True, transaction = None, txn_alloc = 0, pending = [],
           calls = []\<rparr>"
  have f: "(flush ?s0)\<lparr>after_failed_commit_active := True\<rparr> = ?f"
    by (simp add: flush_def session_init_def CommitObjects_init_def add_before_commit_object_def
        add_after_commit_object_def add_failed_commit_object_def)
  have r: "first_raise M Before (dispatch_order (get_bucket Before (commit_objects (locked ?f)))) = None"
    using assms(1) by (simp add: locked_def)
  have "do_commits M Before (locked ?f) =
      Inr ((locked ?f)\<lparr>calls := calls (locked ?f) @
               tagged Before (dispatch_order (get_bucket Before (commit_objects (locked ?f)))),
             commit_objects := clear_bucket Before (commit_objects (locked ?f))\<rparr>)"
    using discarding_locked r by (rule do_commits_returns)
  then have run: "do_commits M Before (locked ?f) =
      Inr \<lparr>commit_objects = \<lparr>lock = True, before = [], after = [(E, {Insert})], failed = [(E, {Insert})]\<rparr>,
           after_failed_commit_active = True, transaction = None, txn_alloc = 0, pending = [],
           calls = [(E, Before, Insert)]\<rparr>"
    by (simp add: locked_def tagged_def)
  have "before_commit M ?s0 = do_commits M Before (locked ((flush ?s0)\<lparr>after_failed_commit_active := True\<rparr>))"
    by (simp add: before_commit_def Let_def do_before_commits_locked)
  also have "\<dots> = do_commits M Before (locked ?f)"
    by (simp only: f)
  finally show "before_commit M ?s0 =
      Inr \<lparr>commit_objects = \<lparr>lock = True, before = [], after = [(E, {Insert})], failed = [(E, {Insert})]\<rparr>,
           after_failed_commit_active = True, transaction = None, txn_alloc = 0, pending = [],
           calls = [(E, Before, Insert)]\<rparr>"
    using run by simp
next
  let ?s1 = "\<lparr>commit_objects = \<lparr>lock = True, before = [], after = [(E, {Insert})], failed = [(E, {Insert})]\<rparr>,
         after_failed_commit_active = True, transaction = None, txn_alloc = 0, pending = [],
         calls = [(E, Before, Insert)]\<rparr>"
  have d: "discarding M ?s1" by (simp add: discarding_def)
  have r: "first_raise M After (dispatch_order (after (commit_objects ?s1))) = None"
    using assms(2) by simp
  show "after_commit M ?s1 =
      Inr \<lparr>commit_objects = CommitObjects_init,
           after_failed_commit_active = False, transaction = None, txn_alloc = 1, pending = [],
           calls = [(E, Before, Insert), (E, After, Insert)]\<rparr>"
    by (simp add: after_commit_returns [OF d r] tagged_def CommitObjects_init_def)
qed

text \<open>
  C3. When the lock is set (or the hooks do not write) and no after hook raises, the
  listener of \<^verbatim>\<open>after_commit\<close> clears \<^verbatim>\<open>_after_failed_commit_active\<close>, invokes the hooks
  of the after bucket in dispatch order and empties it, empties the failed bucket
  without invoking any of its hooks, unsets the lock, and leaves the session's
  transaction as it found it. Consequently, for a new session in which one entity \<open>E\<close>
  was inserted, whose before and after insert hooks return: \<^verbatim>\<open>before_commit\<close> followed
  by \<^verbatim>\<open>after_commit\<close> invokes \<^verbatim>\<open>before_commit_from_insert\<close> and then
  \<^verbatim>\<open>after_commit_from_insert\<close>, once each, and no failed hook.
\<close>

theorem after_commit_success:
  "(discarding M s \<and> first_raise M After (dispatch_order (after (commit_objects s))) = None \<longrightarrow>
      after_commit M s =
        Inr (s\<lparr>after_failed_commit_active := False,
               calls := calls s @ tagged After (dispatch_order (after (commit_objects s))),
               commit_objects := (commit_objects s)\<lparr>lock := False, after := [], failed := []\<rparr>,
               txn_alloc := Suc (txn_alloc s)\<rparr>))
   \<and> (outcome (M E Before Insert) = None \<and> outcome (M E After Insert) = None \<longrightarrow>
        (\<exists>s1 s2.
           before_commit M (session_init\<lparr>pending :=
               [(Before, E, Insert), (After, E, Insert), (Failed, E, Insert)]\<rparr>) = Inr s1
         \<and> after_commit M s1 = Inr s2
         \<and> calls s2 = [(E, Before, Insert), (E, After, Insert)]
         \<and> commit_objects s2 = CommitObjects_init
         \<and> \<not> after_failed_commit_active s2))"
proof (intro conjI impI)
  assume "discarding M s \<and> first_raise M After (dispatch_order (after (commit_objects s))) = None"
  then show "after_commit M s =
        Inr (s\<lparr>after_failed_commit_active := False,
               calls := calls s @ tagged After (dispatch_order (after (commit_objects s))),
               commit_objects := (commit_objects s)\<lparr>lock := False, after := [], failed := []\<rparr>,
               txn_alloc := Suc (txn_alloc s)\<rparr>)"
    by (simp add: after_commit_returns)
next
  assume h: "outcome (M E Before Insert) = None \<and> outcome (M E After Insert) = None"
  let ?s1 = "\<lparr>commit_objects = \<lparr>lock = True, before = [], after = [(E, {Insert})], failed = [(E, {Insert})]\<rparr>,
         after_failed_commit_active = True, transaction = None, txn_alloc = 0, pending = [],
         calls = [(E, Before, Insert)]\<rparr>"
  let ?s2 = "\<lparr>commit_objects = CommitObjects_init,
           after_failed_commit_active = False, transaction = None, txn_alloc = 1, pending = [],
           calls = [(E, Before, Insert), (E, After, Insert)]\<rparr>"
  have "before_commit M (session_init\<lparr>pending :=
               [(Before, E, Insert), (After, E, Insert), (Failed, E, Insert)]\<rparr>) = Inr ?s1
         \<and> after_commit M ?s1 = Inr ?s2"
    using h commit_of_one_insert [of M E] by blast
  then have "before_commit M (session_init\<lparr>pending :=
               [(Before, E, Insert), (After, E, Insert), (Failed, E, Insert)]\<rparr>) = Inr ?s1
         \<and> after_commit M ?s1 = Inr ?s2
         \<and> calls ?s2 = [(E, Before, Insert), (E, After, Insert)]
         \<and> commit_objects ?s2 = CommitObjects_init
         \<and> \<not> after_failed_commit_active ?s2"
    by simp
  then show "\<exists>s1 s2.
           before_commit M (session_init\<lparr>pending :=
               [(Before, E, Insert), (After, E, Insert), (Failed, E, Insert)]\<rparr>) = Inr s1
         \<and> after_commit M s1 = Inr s2
         \<and> calls s2 = [(E, Before, Insert), (E, After, Insert)]
         \<and> commit_objects s2 = CommitObjects_init
         \<and> \<not> after_failed_commit_active s2"
    by blast
qed

theorem after_commit_success_witness:
  "discarding writing_methods one_insert_before
   \<and> first_raise writing_methods After (dispatch_order (after (commit_objects one_insert_before))) = None
   \<and> outcome (writing_methods 1 Before Insert) = None
   \<and> outcome (writing_methods 1 After Insert) = None
   \<and> after_commit writing_methods one_insert_before = Inr one_insert_after"
proof -
  have d: "discarding writing_methods one_insert_before"
    by (simp add: discarding_def one_insert_before_def)
  have r: "first_raise writing_methods After
      (dispatch_order (after (commit_objects one_insert_before))) = None"
    by (simp add: one_insert_before_def writing_methods_def)
  have o: "outcome (writing_methods 1 Before Insert) = None"
      "outcome (writing_methods 1 After Insert) = None"
    by (simp_all add: writing_methods_def)
  have "after_commit writing_methods one_insert_before =
      Inr (one_insert_before\<lparr>after_failed_commit_active := False,
             calls := calls one_insert_before @
               tagged After (dispatch_order (after (commit_objects one_insert_before))),
             commit_objects :=
               (commit_objects one_insert_before)\<lparr>lock := False, after := [], failed := []\<rparr>,
             txn_alloc := Suc (txn_alloc one_insert_before)\<rparr>)"
    using after_commit_success [where M = writing_methods and s = one_insert_before,
        THEN conjunct1] d r by blast
  then have "after_commit writing_methods one_insert_before = Inr one_insert_after"
    by (simp add: one_insert_before_def one_insert_after_def tagged_def CommitObjects_init_def)
  with d r o show ?thesis by blast
qed

text \<open>
  C4, as the code has it. The listener of \<^verbatim>\<open>after_soft_rollback\<close> dispatches the
  failed bucket exactly when \<^verbatim>\<open>_after_failed_commit_active\<close> is set. When it is not
  set, the listener changes nothing: no hook runs, and the ChangeRecord, its lock
  included, is as it was. When it is set (under the lock, or with hooks that do not
  write, and no failed hook raising), the hooks of the failed bucket run in dispatch
  order, the failed bucket and the after bucket are emptied, no hook of the after
  bucket runs, the lock is unset and \<^verbatim>\<open>_after_failed_commit_active\<close> is cleared. The
  lock is unset inside \<^verbatim>\<open>_do_failed_commits\<close> only.
\<close>

theorem after_failed_commit_cases:
  "(\<not> after_failed_commit_active s \<longrightarrow> after_failed_commit M s = Inr s)
   \<and> (after_failed_commit_active s \<and> discarding M s
        \<and> first_raise M Failed (dispatch_order (failed (commit_objects s))) = None \<longrightarrow>
      after_failed_commit M s =
        Inr (s\<lparr>after_failed_commit_active := False,
               calls := calls s @ tagged Failed (dispatch_order (failed (commit_objects s))),
               commit_objects := (commit_objects s)\<lparr>lock := False, after := [], failed := []\<rparr>,
               txn_alloc := Suc (txn_alloc s)\<rparr>))"
proof (intro conjI impI)
  assume "\<not> after_failed_commit_active s"
  then show "after_failed_commit M s = Inr s"
    by (simp add: after_failed_commit_def)
next
  assume h: "after_failed_commit_active s \<and> discarding M s
        \<and> first_raise M Failed (dispatch_order (failed (commit_objects s))) = None"
  then have d: "discarding M s"
    and r: "first_raise M Failed (dispatch_order (failed (commit_objects s))) = None"
    by simp_all
  show "after_failed_commit M s =
        Inr (s\<lparr>after_failed_commit_active := False,
               calls := calls s @ tagged Failed (dispatch_order (failed (commit_objects s))),
               commit_objects := (commit_objects s)\<lparr>lock := False, after := [], failed := []\<rparr>,
               txn_alloc := Suc (txn_alloc s)\<rparr>)"
    using h by (simp add: after_failed_commit_def do_failed_commits_returns [OF d r])
qed

theorem after_failed_commit_cases_witness:
  "\<not> after_failed_commit_active one_insert_stuck
   \<and> after_failed_commit quiet_methods one_insert_stuck = Inr one_insert_stuck
   \<and> after_failed_commit_active one_insert_before
   \<and> discarding quiet_methods one_insert_before
   \<and> first_raise quiet_methods Failed (dispatch_order (failed (commit_objects one_insert_before))) = None
   \<and> after_failed_commit quiet_methods one_insert_before =
       Inr \<lparr>commit_objects = CommitObjects_init,
            after_failed_commit_active = False, transaction = None, txn_alloc = 1, pending = [],
            calls = [(1, Before, Insert), (1, Failed, Insert)]\<rparr>"
proof -
  have n: "\<not> after_failed_commit_active one_insert_stuck"
    by (simp add: one_insert_stuck_def)
  have a: "after_failed_commit_active one_insert_before"
    and d: "discarding quiet_methods one_insert_before"
    and r: "first_raise quiet_methods Failed
      (dispatch_order (failed (commit_objects one_insert_before))) = None"
    by (simp_all add: one_insert_before_def discarding_def quiet_methods_def)
  have 1: "after_failed_commit quiet_methods one_insert_stuck = Inr one_insert_stuck"
    using after_failed_commit_cases [where M = quiet_methods and s = one_insert_stuck,
        THEN conjunct1] n by (rule mp)
  have "after_failed_commit quiet_methods one_insert_before =
        Inr (one_insert_before\<lparr>after_failed_commit_active := False,
               calls := calls one_insert_before @
                 tagged Failed (dispatch_order (failed (commit_objects one_insert_before))),
               commit_objects :=
                 (commit_objects one_insert_before)\<lparr>lock := False, after := [], failed := []\<rparr>,
               txn_alloc := Suc (txn_alloc one_insert_before)\<rparr>)"
    using after_failed_commit_cases [where M = quiet_methods and s = one_insert_before,
        THEN conjunct2] a d r by blast
  then have 2: "after_failed_commit quiet_methods one_insert_before =
       Inr \<lparr>commit_objects = CommitObjects_init,
            after_failed_commit_active = False, transaction = None, txn_alloc = 1, pending = [],
            calls = [(1, Before, Insert), (1, Failed, Insert)]\<rparr>"
    by (simp add: one_insert_before_def tagged_def CommitObjects_init_def)
  show ?thesis using n 1 a d r 2 by blast
qed

text \<open>
  The claim as the specification words it fails. Entity 1 is inserted and committed;
  its after hook raises, which leaves the lock set and
  \<^verbatim>\<open>_after_failed_commit_active\<close> cleared. The rollback that follows does not unset the
  lock.
\<close>

theorem rollback_keeps_lock_counterexample:
  "before_commit after_raising_methods one_insert = Inr one_insert_before
   \<and> after_commit after_raising_methods one_insert_before = Inl (HookFailure 1, one_insert_stuck)
   \<and> after_failed_commit after_raising_methods one_insert_stuck = Inr one_insert_stuck
   \<and> lock (commit_objects one_insert_stuck)"
proof -
  have b: "before_commit after_raising_methods one_insert = Inr one_insert_before"
    by (simp add: before_commit_def flush_def do_before_commits_def do_commits_def call_hook_def
        Let_def logged_def getitem_def one_insert_def one_insert_before_def session_init_def
        CommitObjects_init_def after_raising_methods_def add_before_commit_object_def
        add_after_commit_object_def add_failed_commit_object_def)
  have a: "after_commit after_raising_methods one_insert_before =
      Inl (HookFailure 1, one_insert_stuck)"
    by (simp add: after_commit_def do_after_commits_def tmp_transaction_def SessionTransaction_def
        do_commits_def call_hook_def Let_def logged_def getitem_def one_insert_before_def
        one_insert_stuck_def after_raising_methods_def)
  have f: "after_failed_commit after_raising_methods one_insert_stuck = Inr one_insert_stuck"
    by (simp add: after_failed_commit_def one_insert_stuck_def)
  have l: "lock (commit_objects one_insert_stuck)"
    by (simp add: one_insert_stuck_def)
  show ?thesis using b a f l by blast
qed

section \<open>The bridge from mutation events\<close>

text \<open>
  C6, as the code has it. The closure of \<^verbatim>\<open>_build_add_func\<close> raises
  \<^verbatim>\<open>AttributeError\<close> when \<^verbatim>\<open>object_session\<close> finds no session for the entity, when
  the session found is not a \<^verbatim>\<open>SessionMixin\<close> session, and when it is one that
  \<^verbatim>\<open>SessionMixin.__init__\<close> has not initialised; in each of these cases no session has
  changed. Only when the entity belongs to an initialised \<^verbatim>\<open>SessionMixin\<close> session does
  the closure return, whether the entity is in a bucket already or not: the write goes to
  that session through its recording method (which discards it under the lock), and
  every other session is as it was.
\<close>

theorem add_object_cases:
  "(object_session w obj = None \<longrightarrow> add_object t a obj w = Inl (AttributeError, w))
   \<and> (object_session w obj = Some i \<and> sessions w i = Plain \<longrightarrow>
        add_object t a obj w = Inl (AttributeError, w))
   \<and> (object_session w obj = Some i \<and> sessions w i = Uninitialised \<longrightarrow>
        add_object t a obj w = Inl (AttributeError, w))
   \<and> (object_session w obj = Some i \<and> sessions w i = Tracked s \<longrightarrow>
        (\<exists>w'. add_object t a obj w = Inr w'
           \<and> object_session w' = object_session w
           \<and> sessions w' i = Tracked (add_commit_object t obj a s)
           \<and> (\<forall>j. j \<noteq> i \<longrightarrow> sessions w' j = sessions w j)
           \<and> (lock (commit_objects s) \<longrightarrow> w' = w)))"
proof (intro conjI impI)
  assume "object_session w obj = None"
  then show "add_object t a obj w = Inl (AttributeError, w)"
    by (simp add: add_object_def)
next
  assume "object_session w obj = Some i \<and> sessions w i = Plain"
  then show "add_object t a obj w = Inl (AttributeError, w)"
    by (simp add: add_object_def)
next
  assume "object_session w obj = Some i \<and> sessions w i = Uninitialised"
  then show "add_object t a obj w = Inl (AttributeError, w)"
    by (simp add: add_object_def)
next
  assume h: "object_session w obj = Some i \<and> sessions w i = Tracked s"
  let ?w = "w\<lparr>sessions := (sessions w)(i := Tracked (add_commit_object t obj a s))\<rparr>"
  have r: "add_object t a obj w = Inr ?w"
    using h by (simp add: add_object_def)
  have l: "lock (commit_objects s) \<longrightarrow> ?w = w"
  proof
    assume "lock (commit_objects s)"
    then have "(sessions w)(i := Tracked (add_commit_object t obj a s)) = sessions w"
      using h by (simp add: add_commit_object_locked fun_upd_idem_iff)
    then show "?w = w" by simp
  qed
  have "add_object t a obj w = Inr ?w
           \<and> object_session ?w = object_session w
           \<and> sessions ?w i = Tracked (add_commit_object t obj a s)
           \<and> (\<forall>j. j \<noteq> i \<longrightarrow> sessions ?w j = sessions w j)
           \<and> (lock (commit_objects s) \<longrightarrow> ?w = w)"
    using r l by simp
  then show "\<exists>w'. add_object t a obj w = Inr w'
           \<and> object_session w' = object_session w
           \<and> sessions w' i = Tracked (add_commit_object t obj a s)
           \<and> (\<forall>j. j \<noteq> i \<longrightarrow> sessions w' j = sessions w j)
           \<and> (lock (commit_objects s) \<longrightarrow> w' = w)"
    by (rule exI)
qed

theorem add_object_cases_witness:
  "object_session small_world 2 = None
   \<and> add_object After Update 2 small_world = Inl (AttributeError, small_world)
   \<and> object_session small_world 3 = Some 1 \<and> sessions small_world 1 = Plain
   \<and> add_object After Update 3 small_world = Inl (AttributeError, small_world)
   \<and> object_session small_world 1 = Some 0 \<and> sessions small_world 0 = Tracked session_init
   \<and> sessions (final_world (add_object Before Insert 1 small_world)) 0 =
       Tracked (session_init\<lparr>commit_objects :=
         \<lparr>lock = False, before = [(1, {Insert})], after = [], failed = []\<rparr>\<rparr>)"
proof -
  have n: "object_session small_world 2 = None"
    and p: "object_session small_world 3 = Some 1 \<and> sessions small_world 1 = Plain"
    and s: "object_session small_world 1 = Some 0 \<and> sessions small_world 0 = Tracked session_init"
    by (simp_all add: small_world_def)
  note T = add_object_cases [where w = small_world]
  have 1: "add_object After Update 2 small_world = Inl (AttributeError, small_world)"
    using T [where obj = 2 and t = After and a = Update, THEN conjunct1] n by (rule mp)
  have 2: "add_object After Update 3 small_world = Inl (AttributeError, small_world)"
    using T [where obj = 3 and t = After and a = Update and i = 1,
        THEN conjunct2, THEN conjunct1] p by (rule mp)
  obtain w' where r: "add_object Before Insert 1 small_world = Inr w'"
    and v: "sessions w' 0 = Tracked (add_commit_object Before 1 Insert session_init)"
    using T [where obj = 1 and t = Before and a = Insert and i = 0 and s = session_init,
        THEN conjunct2, THEN conjunct2, THEN conjunct2] s by blast
  have "add_commit_object Before 1 Insert session_init =
      session_init\<lparr>commit_objects :=
         \<lparr>lock = False, before = [(1, {Insert})], after = [], failed = []\<rparr>\<rparr>"
    by (simp add: session_init_def CommitObjects_init_def add_before_commit_object_def)
  then have 3: "sessions (final_world (add_object Before Insert 1 small_world)) 0 =
       Tracked (session_init\<lparr>commit_objects :=
         \<lparr>lock = False, before = [(1, {Insert})], after = [], failed = []\<rparr>\<rparr>)"
    using r v by simp
  show ?thesis using n 1 p 2 s 3 by blast
qed

text \<open>
  The claim as the specification words it fails: for an entity without a session the
  closure raises.
\<close>

theorem add_object_raises_counterexample:
  "add_object Before Insert 2 small_world = Inl (AttributeError, small_world)"
  by (simp add: add_object_def small_world_def)

section \<open>The temporary transaction\<close>

text \<open>
  C8 does not hold of the code. The session of the example is inside the commit of
  transaction 0. The after hook of entity 2 raises; \<^verbatim>\<open>_do_after_commits\<close> ends with
  that exception, and the session's transaction is then the temporary one, number 1: the
  assignment after the \<^verbatim>\<open>yield\<close> of \<^verbatim>\<open>_tmp_transaction\<close> did not run.
\<close>

theorem tmp_transaction_not_restored_on_raise:
  "transaction in_commit = Some (Txn 0)
   \<and> do_after_commits raising_methods in_commit =
       Inl (HookFailure 0,
            in_commit\<lparr>transaction := Some (Txn 1), txn_alloc := 2,
                       calls := [(1, After, Insert), (2, After, Insert)]\<rparr>)
   \<and> transaction (final (do_after_commits raising_methods in_commit)) = Some (Txn 1)"
proof -
  have t: "transaction in_commit = Some (Txn 0)"
    by (simp add: in_commit_def)
  have r: "do_after_commits raising_methods in_commit =
       Inl (HookFailure 0,
            in_commit\<lparr>transaction := Some (Txn 1), txn_alloc := 2,
                       calls := [(1, After, Insert), (2, After, Insert)]\<rparr>)"
    by (simp add: do_after_commits_def tmp_transaction_def SessionTransaction_def do_commits_def
        call_hook_def Let_def logged_def getitem_def in_commit_def two_entities_def
        session_init_def raising_methods_def)
  have f: "transaction (final (do_after_commits raising_methods in_commit)) = Some (Txn 1)"
    by (simp add: r)
  show ?thesis using t r f by blast
qed

section \<open>The default hooks\<close>

text \<open>
  C9. The body \<^verbatim>\<open>raise NotImplemented(self.__err)\<close> of a default hook raises
  \<^verbatim>\<open>TypeError\<close>, not \<^verbatim>\<open>NotImplementedError\<close>: the attribute is found, and the call of
  the constant \<^verbatim>\<open>NotImplemented\<close> fails before there is anything to raise. (A call of
  the class \<^verbatim>\<open>NotImplementedError\<close> would give an instance, and raising it would raise
  \<^verbatim>\<open>NotImplementedError\<close>.) So the invocation of a hook that the entity's class does
  not override ends with \<^verbatim>\<open>TypeError\<close>.
\<close>

theorem default_hook_raises_TypeError:
  "default_hook = TypeError
   \<and> default_hook \<noteq> NotImplementedError
   \<and> py_getattr CommitMixin_dict (mangle ''CommitMixin'' ''__err'') = Inr (Str ''Override to add hooks'')
   \<and> py_call NotImplemented [Str ''Override to add hooks''] = Inl TypeError
   \<and> (case py_call NotImplementedError_class [Str ''Override to add hooks''] of
         Inl e \<Rightarrow> e | Inr v \<Rightarrow> py_raise v) = NotImplementedError
   \<and> (M obj t a = Default \<longrightarrow> call_hook M obj t a s = Inl (TypeError, logged obj t a s))"
proof -
  have g: "py_getattr CommitMixin_dict (mangle ''CommitMixin'' ''__err'') =
      Inr (Str ''Override to add hooks'')"
    by (simp add: py_getattr_def CommitMixin_dict_def)
  have d: "default_hook = TypeError"
    by (simp add: default_hook_def g)
  have c: "M obj t a = Default \<longrightarrow> call_hook M obj t a s = Inl (TypeError, logged obj t a s)"
    by (simp add: call_hook_def d)
  show ?thesis using g d c by simp
qed

theorem default_hook_raises_TypeError_witness:
  "default_methods 1 Before Insert = Default
   \<and> call_hook default_methods 1 Before Insert session_init =
       Inl (TypeError, session_init\<lparr>calls := [(1, Before, Insert)]\<rparr>)"
proof -
  have m: "default_methods 1 Before Insert = Default"
    by (simp add: default_methods_def)
  have "call_hook default_methods 1 Before Insert session_init =
      Inl (TypeError, logged 1 Before Insert session_init)"
    using default_hook_raises_TypeError [where M = default_methods and obj = 1 and t = Before
        and a = Insert and s = session_init] m by blast
  then have "call_hook default_methods 1 Before Insert session_init =
       Inl (TypeError, session_init\<lparr>calls := [(1, Before, Insert)]\<rparr>)"
    by (simp add: logged_def session_init_def)
  with m show ?thesis by blast
qed

section \<open>Deduplication\<close>

text \<open>
  C7. Recording the same entity and kind \<open>N \<ge> 1\<close> times through the recording method of
  a bucket (with the lock not set, so that the writes count) leaves the session as one
  recording does: the entity is once among the keys of the bucket and the kind is in its
  kind-set. The dispatch of that bucket, under the lock that \<^verbatim>\<open>_do_before_commits\<close>
  has set by then, invokes the hook of that entity and kind at most once, and exactly
  once when no hook of the bucket raises.
\<close>

theorem repeated_recording_fires_once:
  assumes "\<not> lock (commit_objects s)"
    and "distinct (map fst (get_bucket t (commit_objects s)))"
    and "1 \<le> N"
  shows "(add_commit_object t obj a ^^ N) s = add_commit_object t obj a s
     \<and> count_list (map fst (get_bucket t (commit_objects ((add_commit_object t obj a ^^ N) s)))) obj = 1
     \<and> a \<in> getitem (get_bucket t (commit_objects ((add_commit_object t obj a ^^ N) s))) obj
     \<and> count_list (dispatch_order (get_bucket t (commit_objects ((add_commit_object t obj a ^^ N) s))))
          (obj, a) = 1
     \<and> count_list (calls (final (do_commits M t (locked ((add_commit_object t obj a ^^ N) s)))))
          (obj, t, a) \<le> count_list (calls s) (obj, t, a) + 1
     \<and> (first_raise M t (dispatch_order
            (get_bucket t (commit_objects ((add_commit_object t obj a ^^ N) s)))) = None \<longrightarrow>
          count_list (calls (final (do_commits M t (locked ((add_commit_object t obj a ^^ N) s)))))
            (obj, t, a) = count_list (calls s) (obj, t, a) + 1)"
proof -
  let ?s1 = "(add_commit_object t obj a ^^ N) s"
  let ?b = "get_bucket t (commit_objects ?s1)"
  have once: "?s1 = add_commit_object t obj a s"
    using assms(3) by (rule funpow_add_commit_object)
  have b: "?b = bucket_add (get_bucket t (commit_objects s)) obj a"
    by (simp add: once get_bucket_add [OF assms(1)])
  have d: "distinct (map fst ?b)"
    using assms(2) by (simp add: b distinct_bucket_add)
  have k: "obj \<in> set (map fst ?b)"
    by (simp add: b map_fst_bucket_add)
  have keys: "count_list (map fst ?b) obj = 1"
    using d k by (simp add: count_list_distinct)
  have kind: "a \<in> getitem ?b obj"
    by (simp add: b getitem_bucket_add)
  have order: "count_list (dispatch_order ?b) (obj, a) = 1"
    using keys kind by (simp add: count_dispatch_order)
  have cs: "calls (locked ?s1) = calls s"
    by (simp add: once locked_def)
  have bl: "get_bucket t (commit_objects (locked ?s1)) = ?b"
    by (cases t) (simp_all add: locked_def)
  have run: "calls (final (do_commits M t (locked ?s1))) =
      calls s @ tagged t (fired M t (dispatch_order ?b))"
    using calls_do_commits [where M = M and s = "locked ?s1" and t = t, OF discarding_locked]
    by (simp add: cs bl)
  obtain n where n: "fired M t (dispatch_order ?b) = take n (dispatch_order ?b)"
    using fired_take by blast
  have "count_list (fired M t (dispatch_order ?b)) (obj, a) \<le> 1"
    using count_take_le [of n "dispatch_order ?b" "(obj, a)"] order by (simp add: n)
  then have atmost: "count_list (calls (final (do_commits M t (locked ?s1)))) (obj, t, a)
      \<le> count_list (calls s) (obj, t, a) + 1"
    by (simp add: run count_tagged)
  have exact: "first_raise M t (dispatch_order ?b) = None \<longrightarrow>
      count_list (calls (final (do_commits M t (locked ?s1)))) (obj, t, a) =
        count_list (calls s) (obj, t, a) + 1"
    using order by (simp add: run count_tagged fired_no_raise)
  show ?thesis using once keys kind order atmost exact by blast
qed

theorem repeated_recording_fires_once_witness:
  "\<not> lock (commit_objects session_init)
   \<and> distinct (map fst (get_bucket After (commit_objects session_init)))
   \<and> (1::nat) \<le> 5
   \<and> after (commit_objects ((add_commit_object After 1 Update ^^ 5) session_init)) = [(1, {Update})]
   \<and> count_list
        (calls (final (do_commits quiet_methods After
           (locked ((add_commit_object After 1 Update ^^ 5) session_init)))))
        (1, After, Update) = 1"
proof -
  have h1: "\<not> lock (commit_objects session_init)"
    and h2: "distinct (map fst (get_bucket After (commit_objects session_init)))"
    by (simp_all add: session_init_def CommitObjects_init_def)
  have h3: "(1::nat) \<le> 5" by simp
  note T = repeated_recording_fires_once [where s = session_init and t = After and obj = 1
      and a = Update and N = 5 and M = quiet_methods, OF h1 h2 h3]
  have once: "(add_commit_object After 1 Update ^^ 5) session_init =
      add_commit_object After 1 Update session_init"
    using T by (rule conjunct1)
  have v: "after (commit_objects (add_commit_object After 1 Update session_init)) = [(1, {Update})]"
    by (simp add: add_after_commit_object_def session_init_def CommitObjects_init_def)
  have b: "after (commit_objects ((add_commit_object After 1 Update ^^ 5) session_init)) =
      [(1, {Update})]"
    unfolding once by (rule v)
  have r: "first_raise quiet_methods After (dispatch_order (get_bucket After
      (commit_objects ((add_commit_object After 1 Update ^^ 5) session_init)))) = None"
    unfolding once using v by (simp add: quiet_methods_def)
  have "count_list
        (calls (final (do_commits quiet_methods After
           (locked ((add_commit_object After 1 Update ^^ 5) session_init)))))
        (1, After, Update) = count_list (calls session_init) (1, After, Update) + 1"
    using T r by blast
  then have c: "count_list
        (calls (final (do_commits quiet_methods After
           (locked ((add_commit_object After 1 Update ^^ 5) session_init)))))
        (1, After, Update) = 1"
    by (simp add: session_init_def)
  show ?thesis using h1 h2 h3 b c by blast
qed

section \<open>Hooks registered more than once\<close>

text \<open>
  C10. Registering the same hooks on a class a second time leaves the effect of every
  mutation event as it was. Along a chain of subclasses every level registers the hooks
  it resolves to an override, those of its bases among them; whether the engine also
  calls the listeners installed on the bases or not (\<open>propagate\<close>), the event records
  the same session. For a new session and one event on an entity of the class, the
  bucket of each overridden hook of that kind holds the entity once, and the dispatch of
  the bucket invokes the hook once; the buckets of hooks not overridden stay empty.
\<close>

theorem duplicate_listeners_record_once:
  "emit (register_hooks c methods (register_hooks c methods reg)) p cls a obj s =
     emit (register_hooks c methods reg) p cls a obj s
   \<and> emit (declare_class cls []) True cls a obj s = emit (declare_class cls []) False cls a obj s
   \<and> get_bucket t (commit_objects (emit (declare_class cls []) p cls a obj session_init)) =
       (if (t, a) \<in> set (overridden_hooks cls) then [(obj, {a})] else [])
   \<and> calls (final (do_commits M t (locked (emit (declare_class cls []) p cls a obj session_init)))) =
       (if (t, a) \<in> set (overridden_hooks cls) then [(obj, t, a)] else [])"
proof (intro conjI)
  have "set (listener_calls (register_hooks c methods (register_hooks c methods reg)) p cls a obj) =
      set (listener_calls (register_hooks c methods reg) p cls a obj)"
    by (auto simp add: listener_calls_def register_hooks_append)
  then show "emit (register_hooks c methods (register_hooks c methods reg)) p cls a obj s =
     emit (register_hooks c methods reg) p cls a obj s"
    by (rule emit_same_set)
next
  have "set (listener_calls (declare_class cls []) True cls a obj) =
      set (listener_calls (declare_class cls []) False cls a obj)"
    by (simp only: set_listener_calls_declared)
  then show "emit (declare_class cls []) True cls a obj s =
      emit (declare_class cls []) False cls a obj s"
    by (rule emit_same_set)
next
  let ?ws = "listener_calls (declare_class cls []) p cls a obj"
  have u: "\<not> lock (commit_objects session_init)"
    by (simp add: session_init_def CommitObjects_init_def)
  have e: "get_bucket t (commit_objects session_init) = []"
    by (cases t) (simp_all add: session_init_def CommitObjects_init_def)
  have m: "((t, obj, a) \<in> set ?ws) = ((t, a) \<in> set (overridden_hooks cls))"
    by (simp add: set_listener_calls_declared)
  have b: "get_bucket t (commit_objects (record_all ?ws session_init)) =
      (if (t, a) \<in> set (overridden_hooks cls) then [(obj, {a})] else [])"
    using get_bucket_record_all [where ws = ?ws and obj = obj and a = a and s = session_init
        and t = t, OF listener_calls_same u]
    by (simp add: m e)
  show bucket: "get_bucket t (commit_objects (emit (declare_class cls []) p cls a obj session_init)) =
       (if (t, a) \<in> set (overridden_hooks cls) then [(obj, {a})] else [])"
    unfolding emit_def by (rule b)
  let ?s1 = "emit (declare_class cls []) p cls a obj session_init"
  have c: "calls (locked ?s1) = []"
    by (simp add: locked_def emit_def session_init_def)
  have bl: "get_bucket t (commit_objects (locked ?s1)) = get_bucket t (commit_objects ?s1)"
    by (cases t) (simp_all add: locked_def)
  have "calls (final (do_commits M t (locked ?s1))) =
      calls (locked ?s1) @
        tagged t (fired M t (dispatch_order (get_bucket t (commit_objects (locked ?s1)))))"
    using discarding_locked by (rule calls_do_commits)
  then show "calls (final (do_commits M t (locked ?s1))) =
       (if (t, a) \<in> set (overridden_hooks cls) then [(obj, t, a)] else [])"
    by (simp add: c bl bucket tagged_def dispatch_order_Nil split: option.splits)
qed

theorem duplicate_listeners_record_once_witness:
  "listener_calls (declare_class skipped_class []) True skipped_class Update 1 =
     [(Before, 1, Update), (Before, 1, Update)]
   \<and> before (commit_objects (emit (declare_class skipped_class []) True skipped_class Update 1
        session_init)) = [(1, {Update})]
   \<and> calls (final (do_commits quiet_methods Before
        (locked (emit (declare_class skipped_class []) True skipped_class Update 1 session_init)))) =
       [(1, Before, Update)]"
proof -
  have o: "(Before, Update) \<in> set (overridden_hooks skipped_class)"
    by (simp add: overridden_hooks_def lookup_hooks_def skipped_class_def direct_class_def)
  have l: "listener_calls (declare_class skipped_class []) True skipped_class Update 1 =
     [(Before, 1, Update), (Before, 1, Update)]"
    by (simp add: listener_calls_def init_subclass_def overridden_hooks_def lookup_hooks_def
        applies_def skipped_class_def direct_class_def)
  note T = duplicate_listeners_record_once [where cls = skipped_class and p = True and a = Update
      and obj = 1 and t = Before and M = quiet_methods]
  have "get_bucket Before (commit_objects (emit (declare_class skipped_class []) True skipped_class
      Update 1 session_init)) =
       (if (Before, Update) \<in> set (overridden_hooks skipped_class) then [(1, {Update})] else [])"
    using T by blast
  then have b: "before (commit_objects (emit (declare_class skipped_class []) True skipped_class
      Update 1 session_init)) = [(1, {Update})]"
    using o by simp
  have "calls (final (do_commits quiet_methods Before
        (locked (emit (declare_class skipped_class []) True skipped_class Update 1 session_init)))) =
       (if (Before, Update) \<in> set (overridden_hooks skipped_class) then [(1, Before, Update)] else [])"
    using T by blast
  then have c: "calls (final (do_commits quiet_methods Before
        (locked (emit (declare_class skipped_class []) True skipped_class Update 1 session_init)))) =
       [(1, Before, Update)]"
    using o by simp
  show ?thesis using l b c by blast
qed

end
